theory Spec2Isabelle
  imports Main "HOL-Library.Word"
begin

section \<open>Memory, faults and the chunk chain\<close>

text \<open>
  The stack of \<^verbatim>\<open>stack.cc\<close> stores untyped elements of \<^verbatim>\<open>elem_size\<close> bytes in
  a singly linked chain of heap chunks. A byte of memory is a \<open>cell\<close>: storage that
  \<^verbatim>\<open>malloc\<close> has just returned holds \<open>Uninit\<close> cells, a written byte is \<open>Byte b\<close>.
  \<^verbatim>\<open>size_t\<close> is a 64-bit word, so \<^verbatim>\<open>+=\<close>, \<^verbatim>\<open>-=\<close>, \<^verbatim>\<open>++\<close> and \<^verbatim>\<open>--\<close> wrap around.

  The build that is modelled is the debug build: every \<^verbatim>\<open>assert\<close> is checked and a
  failing one ends the call with \<open>Assert_Failed\<close>. What C leaves undefined is a fault of
  its own: reading through a null chunk pointer is \<open>Null_Deref\<close>, a \<^verbatim>\<open>memcpy\<close> that
  leaves the \<^verbatim>\<open>chunk_size\<close> data bytes requested for a chunk (or the caller's buffer)
  is \<open>Out_Of_Bounds\<close>. \<^verbatim>\<open>malloc\<close> is taken to succeed, as the source takes it. The
  stack handle is a record, so the null handle of \<^verbatim>\<open>assert(stack)\<close> is not a value
  of the model.
\<close>

datatype cell = Uninit | Byte "8 word"

datatype fault = Assert_Failed | Null_Deref | Out_Of_Bounds

text \<open>
  \<^verbatim>\<open>memcpy(dst + d, src + s, n)\<close> on two memory objects: the updated destination object,
  or \<open>None\<close> when the copy leaves either object.
\<close>

definition memcpy :: "cell list \<Rightarrow> nat \<Rightarrow> cell list \<Rightarrow> nat \<Rightarrow> nat \<Rightarrow> cell list option" where
  "memcpy dst d src s n =
     (if d + n \<le> length dst \<and> s + n \<le> length src
      then Some (take d dst @ take n (drop s src) @ drop (d + n) dst)
      else None)"

text \<open>
  \<^verbatim>\<open>struct StackChunk { StackChunk *next; char data[1]; }\<close>. A chunk is owned by the
  one pointer that reaches it (the handle's \<^verbatim>\<open>top_chunk\<close> or the newer chunk's
  \<^verbatim>\<open>next\<close>), so the chain is a value: \<open>None\<close> is the null pointer. The field
  \<^verbatim>\<open>next\<close> is written \<open>nxt\<close>. A chunk comes from
  \<^verbatim>\<open>malloc(sizeof(StackChunk) + chunk_size - 1)\<close>: the one declared byte of
  \<^verbatim>\<open>data\<close> and \<^verbatim>\<open>chunk_size - 1\<close> more, so \<open>data\<close> is a list of
  \<^verbatim>\<open>chunk_size\<close> cells. The padding that a compiler adds after \<^verbatim>\<open>data\<close> is layout
  and not part of the chunk.
\<close>

datatype StackChunk = StackChunk (nxt: "StackChunk option") (data: "cell list")

text \<open>
  The argument of that \<^verbatim>\<open>malloc\<close> is a \<^verbatim>\<open>size_t\<close> sum and wraps like any other.
  Where \<^verbatim>\<open>size_t\<close> and pointers have 64 bits, \<^verbatim>\<open>sizeof(StackChunk)\<close> is 16 and
  \<^verbatim>\<open>data\<close> starts at offset 8. \<open>malloc_fits\<close> holds of a chunk size when the block
  that is requested has room for the \<^verbatim>\<open>next\<close> pointer and \<^verbatim>\<open>chunk_size\<close> bytes of
  data, that is, when the sum does not wrap. For a larger chunk size the block the code
  gets is shorter than the \<^verbatim>\<open>chunk_size\<close> cells of the chunk here; where a theorem
  below assumes \<open>malloc_fits\<close>, this is why.
\<close>

definition sizeof_StackChunk :: "64 word" where
  "sizeof_StackChunk = 16"

definition offsetof_data :: "64 word" where
  "offsetof_data = 8"

definition chunk_alloc_size :: "64 word \<Rightarrow> 64 word" where
  "chunk_alloc_size chunk_sz = sizeof_StackChunk + chunk_sz - 1"

definition malloc_fits :: "64 word \<Rightarrow> bool" where
  "malloc_fits chunk_sz =
     (unat offsetof_data + unat chunk_sz \<le> unat (chunk_alloc_size chunk_sz))"

text \<open>
  \<^verbatim>\<open>struct BLI_Stack\<close>, with two counters that the C struct does not have:
  \<open>chunks_allocated\<close> counts the calls of \<^verbatim>\<open>malloc\<close> for a chunk and
  \<open>chunks_freed\<close> the calls of \<^verbatim>\<open>free\<close> on a chunk. No operation reads them.
\<close>

record BLI_Stack =
  elem_size :: "64 word"
  chunk_size :: "64 word"
  chunk_index :: "64 word"
  element_count :: "64 word"
  top_chunk :: "StackChunk option"
  chunks_allocated :: nat
  chunks_freed :: nat

section \<open>The operations of stack.cc\<close>

definition BLI_stack_new_ex :: "64 word \<Rightarrow> string \<Rightarrow> 64 word \<Rightarrow> fault + BLI_Stack" where
  "BLI_stack_new_ex elem_sz description chunk_sz =
     (if 0 < elem_sz
      then Inr \<lparr>elem_size = elem_sz,
                chunk_size = (if 0 < chunk_sz then chunk_sz else 1024 * elem_sz),
                chunk_index = 0,
                element_count = 0,
                top_chunk = None,
                chunks_allocated = 0,
                chunks_freed = 0\<rparr>
      else Inl Assert_Failed)"

definition BLI_stack_new :: "64 word \<Rightarrow> string \<Rightarrow> fault + BLI_Stack" where
  "BLI_stack_new elem_sz description = BLI_stack_new_ex elem_sz description (1024 * elem_sz)"

text \<open>
  \<^verbatim>\<open>BLI_stack_push_r\<close> returns the pointer \<^verbatim>\<open>&stack->top_chunk->data[chunk_index]\<close>:
  in the model the byte offset into the data of the chunk that is the top chunk when the
  call returns. Forming the pointer reads no memory, so the function has no fault.
\<close>

definition BLI_stack_push_r :: "BLI_Stack \<Rightarrow> BLI_Stack \<times> 64 word" where
  "BLI_stack_push_r stack =
     (let stack1 =
            (if top_chunk stack = None \<or> chunk_index stack = chunk_size stack
             then stack\<lparr>top_chunk :=
                          Some (StackChunk (top_chunk stack)
                                  (replicate (unat (chunk_size stack)) Uninit)),
                        chunk_index := 0,
                        chunks_allocated := Suc (chunks_allocated stack)\<rparr>
             else stack);
          ptr = chunk_index stack1
      in (stack1\<lparr>chunk_index := chunk_index stack1 + elem_size stack1,
                  element_count := element_count stack1 + 1\<rparr>, ptr))"

text \<open>
  \<^verbatim>\<open>BLI_stack_push\<close>: \<open>src\<close> is \<open>None\<close> for a null pointer, else the bytes readable
  from \<^verbatim>\<open>src\<close> on.
\<close>

definition BLI_stack_push :: "BLI_Stack \<Rightarrow> cell list option \<Rightarrow> fault + BLI_Stack" where
  "BLI_stack_push stack src =
     (case src of
        None \<Rightarrow> Inl Assert_Failed
      | Some bytes \<Rightarrow>
          (case BLI_stack_push_r stack of
             (stack1, dst) \<Rightarrow>
               (case top_chunk stack1 of
                  None \<Rightarrow> Inl Null_Deref
                | Some c \<Rightarrow>
                    (case memcpy (data c) (unat dst) bytes 0 (unat (elem_size stack1)) of
                       None \<Rightarrow> Inl Out_Of_Bounds
                     | Some d \<Rightarrow> Inr (stack1\<lparr>top_chunk := Some (StackChunk (nxt c) d)\<rparr>)))))"

text \<open>
  \<^verbatim>\<open>BLI_stack_pop(stack, dst)\<close>: \<open>mem\<close> is the caller's buffer and \<open>dst\<close> the offset
  of the destination in it, \<open>None\<close> for a null pointer. The result is the new stack and
  the buffer after the copy.
\<close>

definition BLI_stack_pop :: "BLI_Stack \<Rightarrow> cell list \<Rightarrow> nat option \<Rightarrow> fault + BLI_Stack \<times> cell list" where
  "BLI_stack_pop stack mem dst =
     (case (if chunk_index stack = 0
            then (case top_chunk stack of
                    None \<Rightarrow> Inl Assert_Failed
                  | Some old_chunk \<Rightarrow>
                      Inr (stack\<lparr>top_chunk := nxt old_chunk,
                                 chunks_freed := Suc (chunks_freed stack),
                                 chunk_index := chunk_size stack\<rparr>))
            else Inr stack) of
        Inl f \<Rightarrow> Inl f
      | Inr stack1 \<Rightarrow>
          (let stack2 = stack1\<lparr>chunk_index := chunk_index stack1 - elem_size stack1,
                               element_count := element_count stack1 - 1\<rparr>
           in case dst of
                None \<Rightarrow> Inr (stack2, mem)
              | Some d \<Rightarrow>
                  (case top_chunk stack2 of
                     None \<Rightarrow> Inl Null_Deref
                   | Some c \<Rightarrow>
                       (case memcpy mem d (data c) (unat (chunk_index stack2))
                               (unat (elem_size stack2)) of
                          None \<Rightarrow> Inl Out_Of_Bounds
                        | Some mem' \<Rightarrow> Inr (stack2, mem')))))"

text \<open>
  \<^verbatim>\<open>BLI_stack_peek\<close> returns \<^verbatim>\<open>&stack->top_chunk->data[offset]\<close> with the
  \<^verbatim>\<open>size_t\<close> difference \<^verbatim>\<open>offset = chunk_index - elem_size\<close>: again the byte offset
  into the top chunk's data.
\<close>

definition BLI_stack_peek :: "BLI_Stack \<Rightarrow> fault + 64 word" where
  "BLI_stack_peek stack =
     (if top_chunk stack = None then Inl Assert_Failed
      else (let offset = chunk_index stack - elem_size stack in Inr offset))"

definition BLI_stack_discard :: "BLI_Stack \<Rightarrow> fault + BLI_Stack" where
  "BLI_stack_discard stack =
     (case (if chunk_index stack = 0
            then (case top_chunk stack of
                    None \<Rightarrow> Inl Assert_Failed
                  | Some old_chunk \<Rightarrow>
                      Inr (stack\<lparr>top_chunk := nxt old_chunk,
                                 chunks_freed := Suc (chunks_freed stack),
                                 chunk_index := chunk_size stack\<rparr>))
            else Inr stack) of
        Inl f \<Rightarrow> Inl f
      | Inr stack1 \<Rightarrow>
          Inr (stack1\<lparr>chunk_index := chunk_index stack1 - elem_size stack1,
                      element_count := element_count stack1 - 1\<rparr>))"

text \<open>The number of chunks of a chain; the measure of the loop of \<^verbatim>\<open>BLI_stack_clear\<close>.\<close>

fun chunk_count :: "StackChunk \<Rightarrow> nat" where
  "chunk_count (StackChunk None d) = 1"
| "chunk_count (StackChunk (Some c) d) = Suc (chunk_count c)"

definition chain_length :: "StackChunk option \<Rightarrow> nat" where
  "chain_length p = (case p of None \<Rightarrow> 0 | Some c \<Rightarrow> chunk_count c)"

function clear_loop :: "BLI_Stack \<Rightarrow> BLI_Stack" where
  "clear_loop stack =
     (case top_chunk stack of
        None \<Rightarrow> stack
      | Some old_chunk \<Rightarrow>
          clear_loop (stack\<lparr>top_chunk := nxt old_chunk,
                            chunks_freed := Suc (chunks_freed stack)\<rparr>))"
  by pat_completeness auto
termination
proof (relation "measure (\<lambda>stack. chain_length (top_chunk stack))")
  show "wf (measure (\<lambda>stack. chain_length (top_chunk stack)))" by simp
next
  fix stack :: BLI_Stack and old_chunk
  assume "top_chunk stack = Some old_chunk"
  then show "(stack\<lparr>top_chunk := nxt old_chunk, chunks_freed := Suc (chunks_freed stack)\<rparr>, stack)
        \<in> measure (\<lambda>stack. chain_length (top_chunk stack))"
    by (cases old_chunk rule: chunk_count.cases) (simp_all add: chain_length_def)
qed

declare clear_loop.simps [simp del]

definition BLI_stack_clear :: "BLI_Stack \<Rightarrow> BLI_Stack" where
  "BLI_stack_clear stack = (clear_loop stack)\<lparr>chunk_index := 0, element_count := 0\<rparr>"

text \<open>
  \<^verbatim>\<open>BLI_stack_pop_n\<close>: the loop \<^verbatim>\<open>for (unsigned int i = 0; i < n; i++)\<close>. The counter
  stays below \<open>n < 2 ^ 32\<close>, so it is a natural number; the offset
  \<^verbatim>\<open>i * stack->elem_size\<close> is a \<^verbatim>\<open>size_t\<close> product.
\<close>

function pop_n_loop :: "BLI_Stack \<Rightarrow> cell list \<Rightarrow> nat \<Rightarrow> nat \<Rightarrow> nat \<Rightarrow> fault + BLI_Stack \<times> cell list" where
  "pop_n_loop stack mem dst i n =
     (if i < n
      then (case BLI_stack_pop stack mem (Some (dst + unat (of_nat i * elem_size stack))) of
              Inl f \<Rightarrow> Inl f
            | Inr (stack', mem') \<Rightarrow> pop_n_loop stack' mem' dst (i + 1) n)
      else Inr (stack, mem))"
  by pat_completeness auto
termination
  by (relation "measure (\<lambda>(stack, mem, dst, i, n). n - i)") auto

declare pop_n_loop.simps [simp del]

definition BLI_stack_pop_n :: "BLI_Stack \<Rightarrow> cell list \<Rightarrow> nat option \<Rightarrow> 32 word \<Rightarrow> fault + BLI_Stack \<times> cell list" where
  "BLI_stack_pop_n stack mem dst n =
     (case dst of
        None \<Rightarrow> Inl Assert_Failed
      | Some d \<Rightarrow> pop_n_loop stack mem d 0 (unat n))"

text \<open>
  \<^verbatim>\<open>BLI_stack_pop_n_reverse\<close>: the loop \<^verbatim>\<open>for (unsigned int i = n; i > 0; i--)\<close>,
  which writes at \<^verbatim>\<open>(i - 1) * stack->elem_size\<close>.
\<close>

fun pop_n_reverse_loop :: "BLI_Stack \<Rightarrow> cell list \<Rightarrow> nat \<Rightarrow> nat \<Rightarrow> fault + BLI_Stack \<times> cell list" where
  "pop_n_reverse_loop stack mem dst 0 = Inr (stack, mem)"
| "pop_n_reverse_loop stack mem dst (Suc i) =
     (case BLI_stack_pop stack mem (Some (dst + unat (of_nat (Suc i - 1) * elem_size stack))) of
        Inl f \<Rightarrow> Inl f
      | Inr (stack', mem') \<Rightarrow> pop_n_reverse_loop stack' mem' dst i)"

definition BLI_stack_pop_n_reverse :: "BLI_Stack \<Rightarrow> cell list \<Rightarrow> nat option \<Rightarrow> 32 word \<Rightarrow> fault + BLI_Stack \<times> cell list" where
  "BLI_stack_pop_n_reverse stack mem dst n =
     (case dst of
        None \<Rightarrow> Inl Assert_Failed
      | Some d \<Rightarrow> pop_n_reverse_loop stack mem d (unat n))"

definition BLI_stack_count :: "BLI_Stack \<Rightarrow> 64 word" where
  "BLI_stack_count stack = element_count stack"

definition BLI_stack_is_empty :: "BLI_Stack \<Rightarrow> bool" where
  "BLI_stack_is_empty stack = (element_count stack = 0)"

section \<open>Callers: sequences of operations\<close>

text \<open>
  The claims speak of sequences of calls. \<open>push_all\<close> pushes the values of a list in
  order; \<open>pop_times\<close> pops \<open>n\<close> times, each time into a fresh destination buffer of
  \<^verbatim>\<open>elem_size\<close> bytes, and returns what the buffers hold, first pop first. Both stop at
  the first fault.
\<close>

fun push_all :: "BLI_Stack \<Rightarrow> cell list list \<Rightarrow> fault + BLI_Stack" where
  "push_all s [] = Inr s"
| "push_all s (v # vs) =
     (case BLI_stack_push s (Some v) of
        Inl f \<Rightarrow> Inl f
      | Inr s' \<Rightarrow> push_all s' vs)"

fun pop_times :: "BLI_Stack \<Rightarrow> nat \<Rightarrow> fault + BLI_Stack \<times> cell list list" where
  "pop_times s 0 = Inr (s, [])"
| "pop_times s (Suc n) =
     (case BLI_stack_pop s (replicate (unat (elem_size s)) Uninit) (Some 0) of
        Inl f \<Rightarrow> Inl f
      | Inr (s', out) \<Rightarrow>
          (case pop_times s' n of
             Inl f \<Rightarrow> Inl f
           | Inr (s'', outs) \<Rightarrow> Inr (s'', out # outs)))"

text \<open>
  \<open>lifo_run e cs vs\<close>: create a stack of element size \<open>e\<close> and chunk size \<open>cs\<close>,
  push \<open>vs\<close>, pop as many times. The result is the final stack and the popped values.
\<close>

definition lifo_run :: "64 word \<Rightarrow> 64 word \<Rightarrow> cell list list \<Rightarrow> fault + BLI_Stack \<times> cell list list" where
  "lifo_run e cs vs =
     (case BLI_stack_new_ex e [] cs of
        Inl f \<Rightarrow> Inl f
      | Inr s0 \<Rightarrow>
          (case push_all s0 vs of
             Inl f \<Rightarrow> Inl f
           | Inr s \<Rightarrow> pop_times s (length vs)))"

text \<open>\<open>push_pop\<close>: one push followed at once by one pop into \<open>mem\<close> at offset \<open>d\<close>.\<close>

definition push_pop :: "BLI_Stack \<Rightarrow> cell list \<Rightarrow> cell list \<Rightarrow> nat \<Rightarrow> fault + BLI_Stack \<times> cell list" where
  "push_pop s x mem d =
     (case BLI_stack_push s (Some x) of
        Inl f \<Rightarrow> Inl f
      | Inr s' \<Rightarrow> BLI_stack_pop s' mem (Some d))"

text \<open>
  \<open>read_peek\<close>: the caller reads the \<^verbatim>\<open>elem_size\<close> bytes at the pointer that
  \<^verbatim>\<open>BLI_stack_peek\<close> returned, a pointer into the data of the top chunk.
\<close>

definition read_peek :: "BLI_Stack \<Rightarrow> fault + cell list" where
  "read_peek s =
     (case BLI_stack_peek s of
        Inl f \<Rightarrow> Inl f
      | Inr p \<Rightarrow>
          (case top_chunk s of
             None \<Rightarrow> Inl Null_Deref
           | Some c \<Rightarrow>
               (case memcpy (replicate (unat (elem_size s)) Uninit) 0 (data c) (unat p)
                       (unat (elem_size s)) of
                  None \<Rightarrow> Inl Out_Of_Bounds
                | Some m \<Rightarrow> Inr m)))"

text \<open>
  A call of a mutator with its arguments, and a run of calls from a stack. A run keeps the
  stack only: the pointer that \<^verbatim>\<open>BLI_stack_push_r\<close> returns and the buffers that the
  pops fill are dropped.
\<close>

datatype stack_op =
    Push "cell list option"
  | Push_r
  | Pop "cell list" "nat option"
  | Discard
  | Pop_n "cell list" "nat option" "32 word"
  | Pop_n_reverse "cell list" "nat option" "32 word"
  | Clear

fun apply_op :: "BLI_Stack \<Rightarrow> stack_op \<Rightarrow> fault + BLI_Stack" where
  "apply_op s (Push src) = BLI_stack_push s src"
| "apply_op s Push_r = Inr (fst (BLI_stack_push_r s))"
| "apply_op s (Pop mem dst) = map_sum id fst (BLI_stack_pop s mem dst)"
| "apply_op s Discard = BLI_stack_discard s"
| "apply_op s (Pop_n mem dst n) = map_sum id fst (BLI_stack_pop_n s mem dst n)"
| "apply_op s (Pop_n_reverse mem dst n) = map_sum id fst (BLI_stack_pop_n_reverse s mem dst n)"
| "apply_op s Clear = Inr (BLI_stack_clear s)"

fun run :: "BLI_Stack \<Rightarrow> stack_op list \<Rightarrow> fault + BLI_Stack" where
  "run s [] = Inr s"
| "run s (x # xs) =
     (case apply_op s x of
        Inl f \<Rightarrow> Inl f
      | Inr s' \<Rightarrow> run s' xs)"

text \<open>
  Counting the calls of a run: the pushes, the pops and discards, and whether the run is
  made of these only. \<open>pops_on_nonempty k xs\<close> says that, \<open>k\<close> elements being on the
  stack, every pop or discard of \<open>xs\<close> comes when more elements were pushed than popped.
  \<open>args_ok e xs\<close> says that every pushed source has \<open>e\<close> readable bytes and every
  non-null pop destination has \<open>e\<close> writable bytes.
\<close>

fun is_push :: "stack_op \<Rightarrow> bool" where
  "is_push (Push src) = True"
| "is_push Push_r = True"
| "is_push x = False"

fun is_pop :: "stack_op \<Rightarrow> bool" where
  "is_pop (Pop mem dst) = True"
| "is_pop Discard = True"
| "is_pop x = False"

definition pushes :: "stack_op list \<Rightarrow> nat" where
  "pushes xs = length (filter is_push xs)"

definition pops :: "stack_op list \<Rightarrow> nat" where
  "pops xs = length (filter is_pop xs)"

fun pops_on_nonempty :: "nat \<Rightarrow> stack_op list \<Rightarrow> bool" where
  "pops_on_nonempty k [] = True"
| "pops_on_nonempty k (x # xs) =
     (if is_push x then pops_on_nonempty (Suc k) xs
      else if is_pop x then 0 < k \<and> pops_on_nonempty (k - 1) xs
      else False)"

fun arg_ok :: "nat \<Rightarrow> stack_op \<Rightarrow> bool" where
  "arg_ok e (Push None) = False"
| "arg_ok e (Push (Some v)) = (e \<le> length v)"
| "arg_ok e (Pop mem (Some d)) = (d + e \<le> length mem)"
| "arg_ok e x = True"

section \<open>The elements a stack holds\<close>

text \<open>
  The contents of a stack as a list, top element first. Element \<open>i\<close> of a chunk is the
  \<open>e\<close> bytes at offset \<open>i * e\<close> of its data. The top chunk holds the elements below
  \<^verbatim>\<open>chunk_index\<close>, every older chunk is full.
\<close>

definition slot :: "nat \<Rightarrow> cell list \<Rightarrow> nat \<Rightarrow> cell list" where
  "slot e d i = take e (drop (i * e) d)"

definition chunk_elems :: "nat \<Rightarrow> nat \<Rightarrow> cell list \<Rightarrow> cell list list" where
  "chunk_elems e n d = rev (map (slot e d) [0..<n div e])"

fun chunk_datas :: "StackChunk \<Rightarrow> cell list list" where
  "chunk_datas (StackChunk None d) = [d]"
| "chunk_datas (StackChunk (Some c) d) = d # chunk_datas c"

definition chain :: "StackChunk option \<Rightarrow> cell list list" where
  "chain p = (case p of None \<Rightarrow> [] | Some c \<Rightarrow> chunk_datas c)"

definition older_elems :: "nat \<Rightarrow> StackChunk option \<Rightarrow> cell list list" where
  "older_elems e p = concat (map (\<lambda>d. chunk_elems e (length d) d) (chain p))"

definition stack_elems :: "BLI_Stack \<Rightarrow> cell list list" where
  "stack_elems s =
     (case top_chunk s of
        None \<Rightarrow> []
      | Some c \<Rightarrow> chunk_elems (unat (elem_size s)) (unat (chunk_index s)) (data c)
                  @ older_elems (unat (elem_size s)) (nxt c))"

text \<open>
  The well-formed stacks: the element size is positive, the chunk size is a positive
  multiple of it, \<^verbatim>\<open>chunk_index\<close> is a multiple of the element size and at most the
  chunk size, and every chunk has the \<^verbatim>\<open>chunk_size\<close> data bytes \<^verbatim>\<open>malloc\<close> was asked
  for.
\<close>

definition stack_inv :: "BLI_Stack \<Rightarrow> bool" where
  "stack_inv s =
     (elem_size s \<noteq> 0 \<and> chunk_size s \<noteq> 0
      \<and> unat (elem_size s) dvd unat (chunk_size s)
      \<and> unat (elem_size s) dvd unat (chunk_index s)
      \<and> chunk_index s \<le> chunk_size s
      \<and> list_all (\<lambda>d. length d = unat (chunk_size s)) (chain (top_chunk s)))"

text \<open>What one push and one pop do to a well-formed stack, in terms of its elements.\<close>

definition push_post :: "BLI_Stack \<Rightarrow> cell list \<Rightarrow> BLI_Stack \<Rightarrow> bool" where
  "push_post s v s' =
     (stack_inv s' \<and> stack_elems s' = take (unat (elem_size s)) v # stack_elems s
      \<and> elem_size s' = elem_size s \<and> chunk_size s' = chunk_size s
      \<and> element_count s' = element_count s + 1
      \<and> chunks_freed s' = chunks_freed s
      \<and> chunks_allocated s' + chain_length (top_chunk s) =
            chunks_allocated s + chain_length (top_chunk s')
      \<and> top_chunk s' \<noteq> None \<and> chunk_index s' \<noteq> 0)"

definition pop_post :: "BLI_Stack \<Rightarrow> BLI_Stack \<Rightarrow> bool" where
  "pop_post s s' =
     (stack_inv s' \<and> stack_elems s' = tl (stack_elems s)
      \<and> elem_size s' = elem_size s \<and> chunk_size s' = chunk_size s
      \<and> element_count s' = element_count s - 1
      \<and> chunks_allocated s' = chunks_allocated s
      \<and> chunks_freed s' + chain_length (top_chunk s') =
            chunks_freed s + chain_length (top_chunk s)
      \<and> top_chunk s' \<noteq> None)"

definition pop_result :: "BLI_Stack \<Rightarrow> BLI_Stack \<Rightarrow> bool" where
  "pop_result s s' =
     (BLI_stack_discard s = Inr s'
      \<and> (\<forall>mem. BLI_stack_pop s mem None = Inr (s', mem))
      \<and> (\<forall>mem d. d + unat (elem_size s) \<le> length mem \<longrightarrow>
             BLI_stack_pop s mem (Some d) =
               Inr (s', take d mem @ hd (stack_elems s) @ drop (d + unat (elem_size s)) mem)))"

section \<open>The size of a chunk's block\<close>

text \<open>
  The request fits exactly for the chunk sizes up to \<open>2 ^ 64 - 16\<close>; the block then
  has \<^verbatim>\<open>chunk_size + 7\<close> bytes from \<^verbatim>\<open>data\<close> on.
\<close>

lemma malloc_fits_iff: "malloc_fits cs \<longleftrightarrow> unat cs + 15 < 2 ^ 64"
proof -
  have eq: "chunk_alloc_size cs = cs + 15"
    by (simp add: chunk_alloc_size_def sizeof_StackChunk_def)
  have lt: "unat cs < 2 ^ 64" using unsigned_less [of cs, where 'a = nat] by simp
  show ?thesis
  proof (cases "unat cs + 15 < 2 ^ 64")
    case True
    then have "unat cs + unat (15 :: 64 word) < 2 ^ LENGTH(64)" by simp
    then have "unat (cs + 15) = unat cs + 15"
      using unat_add_lem [of cs 15] by simp
    with True show ?thesis by (simp add: malloc_fits_def eq offsetof_data_def)
  next
    case False
    have "unat (cs + 15) = (unat cs + 15) mod 2 ^ 64" by (simp add: unat_word_ariths)
    also have "\<dots> = unat cs + 15 - 2 ^ 64"
      using False lt by (simp add: mod_if)
    finally have "unat (cs + 15) < 15" using lt by simp
    with False show ?thesis by (simp add: malloc_fits_def eq offsetof_data_def)
  qed
qed

text \<open>
  For the chunk size \<open>2 ^ 64 - 1\<close> the request wraps to 14 bytes, 6 of them data; for
  \<open>2 ^ 64 - 8\<close> it wraps to 7 bytes, less than the \<^verbatim>\<open>next\<close> pointer.
\<close>

lemma malloc_wraps:
  "chunk_alloc_size 18446744073709551615 = 14 \<and> \<not> malloc_fits 18446744073709551615
   \<and> chunk_alloc_size 18446744073709551608 = 7 \<and> \<not> malloc_fits 18446744073709551608"
  by (simp add: malloc_fits_iff chunk_alloc_size_def sizeof_StackChunk_def)

section \<open>Lists of elements in a chunk\<close>

lemma chain_Some: "chain (Some c) = data c # chain (nxt c)"
  by (induction c rule: chunk_datas.induct) (simp_all add: chain_def)

lemma chain_None: "chain None = []"
  by (simp add: chain_def)

lemma chain_length_Some: "chain_length (Some c) = Suc (chain_length (nxt c))"
  by (induction c rule: chunk_count.induct) (simp_all add: chain_length_def)

lemma older_elems_Some:
  "older_elems e (Some c) = chunk_elems e (length (data c)) (data c) @ older_elems e (nxt c)"
  by (simp add: older_elems_def chain_Some)

lemma older_elems_None: "older_elems e None = []"
  by (simp add: older_elems_def chain_None)

lemma chunk_elems_Suc:
  "0 < e \<Longrightarrow> chunk_elems e (k * e + e) d = slot e d k # chunk_elems e (k * e) d"
  by (simp add: chunk_elems_def)

lemma chunk_elems_0: "chunk_elems e 0 d = []"
  by (simp add: chunk_elems_def)

lemma slot_write_same:
  "k * e + e \<le> length d \<Longrightarrow> e \<le> length v \<Longrightarrow>
   slot e (take (k * e) d @ take e v @ drop (k * e + e) d) k = take e v"
  by (simp add: slot_def)

lemma slot_write_other:
  "j < k \<Longrightarrow> k * e + e \<le> length d \<Longrightarrow>
   slot e (take (k * e) d @ w) j = slot e d j"
proof -
  assume a: "j < k" "k * e + e \<le> length d"
  then have "j * e + e \<le> k * e"
    by (metis Suc_leI mult_Suc mult_le_mono1 add.commute)
  then show ?thesis using a
    by (simp add: slot_def take_drop min_def)
qed

lemma chunk_elems_write:
  "k * e + e \<le> length d \<Longrightarrow> 0 < e \<Longrightarrow>
   chunk_elems e (k * e) (take (k * e) d @ w) = chunk_elems e (k * e) d"
  by (simp add: chunk_elems_def slot_write_other)

section \<open>One push, one pop\<close>

lemma inv_sizes:
  assumes "stack_inv s"
  shows "0 < unat (elem_size s)" and "unat (elem_size s) \<le> unat (chunk_size s)"
    and "unat (chunk_index s) \<le> unat (chunk_size s)"
proof -
  from assms have e: "elem_size s \<noteq> 0" and c: "chunk_size s \<noteq> 0"
    and d: "unat (elem_size s) dvd unat (chunk_size s)"
    and le: "chunk_index s \<le> chunk_size s"
    by (simp_all add: stack_inv_def)
  from e show "0 < unat (elem_size s)" by (simp add: unat_gt_0)
  from c have "0 < unat (chunk_size s)" by (simp add: unat_gt_0)
  with d show "unat (elem_size s) \<le> unat (chunk_size s)" by (simp add: dvd_imp_le)
  from le show "unat (chunk_index s) \<le> unat (chunk_size s)" by (simp add: word_le_nat_alt)
qed

lemma dvd_step_le:
  fixes e i c :: nat
  assumes "e dvd i" "e dvd c" "i < c"
  shows "i + e \<le> c"
proof -
  from assms obtain a b where "i = e * a" "c = e * b" by (auto elim!: dvdE)
  with assms(3) have "a < b" by auto
  then have "Suc a \<le> b" by simp
  then have "e * Suc a \<le> e * b" by (rule mult_le_mono2)
  then have "e * a + e \<le> e * b" by simp
  then show ?thesis using \<open>i = e * a\<close> \<open>c = e * b\<close> by simp
qed

lemma push_new_chunk:
  assumes inv: "stack_inv s" and len: "unat (elem_size s) \<le> length v"
    and new: "top_chunk s = None \<or> chunk_index s = chunk_size s"
  shows "\<exists>s'. BLI_stack_push s (Some v) = Inr s' \<and> push_post s v s'"
proof -
  let ?E = "unat (elem_size s)" and ?C = "unat (chunk_size s)"
  note sz = inv_sizes [OF inv]
  define d' where "d' = take ?E v @ drop ?E (replicate ?C Uninit)"
  define s' where "s' = s\<lparr>top_chunk := Some (StackChunk (top_chunk s) d'),
                           chunk_index := elem_size s,
                           element_count := element_count s + 1,
                           chunks_allocated := Suc (chunks_allocated s)\<rparr>"
  have run: "BLI_stack_push s (Some v) = Inr s'"
    using new sz len
    by (auto simp add: BLI_stack_push_def BLI_stack_push_r_def memcpy_def Let_def s'_def d'_def)
  have ld: "length d' = ?C" using sz len by (simp add: d'_def)
  have inv': "stack_inv s'"
    using inv sz ld
    by (simp add: stack_inv_def s'_def chain_Some word_le_nat_alt)
  have slot0: "slot ?E d' 0 = take ?E v"
    using len by (simp add: slot_def d'_def)
  have old: "stack_elems s = older_elems ?E (top_chunk s)"
  proof (cases "top_chunk s")
    case None
    then show ?thesis by (simp add: stack_elems_def older_elems_None)
  next
    case (Some c)
    with new have "chunk_index s = chunk_size s" by simp
    moreover from inv Some have "length (data c) = ?C"
      by (simp add: stack_inv_def chain_Some)
    ultimately show ?thesis using Some
      by (simp add: stack_elems_def older_elems_Some)
  qed
  have "chunk_elems ?E ?E d' = [slot ?E d' 0]"
    using sz(1) by (simp add: chunk_elems_def)
  then have elems: "stack_elems s' = take ?E v # stack_elems s"
    using slot0 old by (simp add: stack_elems_def s'_def)
  have "push_post s v s'"
    unfolding push_post_def
    using inv' elems inv
    by (simp add: s'_def chain_length_Some stack_inv_def)
  with run show ?thesis by blast
qed

lemma push_same_chunk:
  assumes inv: "stack_inv s" and len: "unat (elem_size s) \<le> length v"
    and top: "top_chunk s = Some c" and room: "chunk_index s \<noteq> chunk_size s"
  shows "\<exists>s'. BLI_stack_push s (Some v) = Inr s' \<and> push_post s v s'"
proof -
  let ?E = "unat (elem_size s)" and ?C = "unat (chunk_size s)" and ?I = "unat (chunk_index s)"
  note sz = inv_sizes [OF inv]
  from inv have dE: "?E dvd ?C" and dI: "?E dvd ?I" by (simp_all add: stack_inv_def)
  from room have "?I \<noteq> ?C" by (simp add: word_unat_eq_iff)
  with sz(3) have "?I < ?C" by simp
  then have fit: "?I + ?E \<le> ?C" by (rule dvd_step_le [OF dI dE])
  have "?C < 2 ^ 64" using unsigned_less [of "chunk_size s", where 'a = nat] by simp
  with fit have "?I + ?E < 2 ^ LENGTH(64)" by simp
  then have ua: "unat (chunk_index s + elem_size s) = ?I + ?E"
    using unat_add_lem [of "chunk_index s" "elem_size s"] by simp
  from dI obtain k where k: "?I = k * ?E" by (metis dvd_div_mult_self)
  from inv top have lc: "length (data c) = ?C"
    by (simp add: stack_inv_def chain_Some)
  define d' where "d' = take ?I (data c) @ take ?E v @ drop (?I + ?E) (data c)"
  define s' where "s' = s\<lparr>top_chunk := Some (StackChunk (nxt c) d'),
                           chunk_index := chunk_index s + elem_size s,
                           element_count := element_count s + 1\<rparr>"
  have run: "BLI_stack_push s (Some v) = Inr s'"
    using top room fit lc len
    by (simp add: BLI_stack_push_def BLI_stack_push_r_def memcpy_def Let_def s'_def d'_def)
  have ld: "length d' = ?C" using fit lc len by (simp add: d'_def)
  have ne: "chunk_index s + elem_size s \<noteq> 0"
    using ua sz(1) by (metis add_is_0 less_numeral_extra(3) unat_0)
  have inv': "stack_inv s'"
    using inv ld top ua fit dI
    by (simp add: stack_inv_def s'_def chain_Some word_le_nat_alt)
  have "chunk_elems ?E (k * ?E + ?E) d' = slot ?E d' k # chunk_elems ?E (k * ?E) d'"
    using sz(1) by (rule chunk_elems_Suc)
  moreover have "slot ?E d' k = take ?E v"
    unfolding d'_def k using fit lc len k by (simp add: slot_write_same)
  moreover have "chunk_elems ?E (k * ?E) d' = chunk_elems ?E (k * ?E) (data c)"
    unfolding d'_def k using fit lc k sz(1) by (simp add: chunk_elems_write)
  ultimately have elems: "stack_elems s' = take ?E v # stack_elems s"
    using top ua k by (simp add: stack_elems_def s'_def)
  have "push_post s v s'"
    unfolding push_post_def
    using inv' elems ne top
    by (simp add: s'_def chain_length_Some)
  with run show ?thesis by blast
qed

lemma push_ok:
  assumes "stack_inv s" and "unat (elem_size s) \<le> length v"
  shows "\<exists>s'. BLI_stack_push s (Some v) = Inr s' \<and> push_post s v s'"
proof (cases "top_chunk s = None \<or> chunk_index s = chunk_size s")
  case True
  with assms show ?thesis by (rule push_new_chunk)
next
  case False
  then obtain c where "top_chunk s = Some c" and "chunk_index s \<noteq> chunk_size s" by auto
  with assms show ?thesis by (rule push_same_chunk)
qed

lemma chunk_elems_last:
  assumes "0 < e"
  shows "chunk_elems e (k * e + e) d = take e (drop (k * e) d) # chunk_elems e (k * e) d"
  using assms by (simp add: chunk_elems_Suc slot_def)

lemma pop_same_chunk:
  assumes inv: "stack_inv s" and ne: "stack_elems s \<noteq> []" and idx: "chunk_index s \<noteq> 0"
  shows "\<exists>s'. pop_result s s' \<and> pop_post s s'"
proof -
  let ?E = "unat (elem_size s)" and ?C = "unat (chunk_size s)" and ?I = "unat (chunk_index s)"
  note sz = inv_sizes [OF inv]
  from ne obtain c where top: "top_chunk s = Some c"
    by (cases "top_chunk s") (auto simp add: stack_elems_def)
  from inv have dI: "?E dvd ?I" by (simp add: stack_inv_def)
  from idx have "0 < ?I" by (simp add: unat_gt_0)
  with dI have ge: "?E \<le> ?I" by (simp add: dvd_imp_le)
  then have le: "elem_size s \<le> chunk_index s" by (simp add: word_le_nat_alt)
  then have us: "unat (chunk_index s - elem_size s) = ?I - ?E" by (rule unat_sub)
  from dI ge obtain k where k: "?I = k * ?E + ?E"
    by (metis dvd_div_mult_self le_add_diff_inverse2 dvd_diff_nat dvd_refl)
  then have k': "?I - ?E = k * ?E" by simp
  from inv top have lc: "length (data c) = ?C"
    by (simp add: stack_inv_def chain_Some)
  define s' where "s' = s\<lparr>chunk_index := chunk_index s - elem_size s,
                           element_count := element_count s - 1\<rparr>"
  have split: "chunk_elems ?E ?I (data c) =
      take ?E (drop (?I - ?E) (data c)) # chunk_elems ?E (?I - ?E) (data c)"
    unfolding k' unfolding k using sz(1) by (rule chunk_elems_last)
  then have hd: "hd (stack_elems s) = take ?E (drop (?I - ?E) (data c))"
    and tl: "tl (stack_elems s) = stack_elems s'"
    using top us by (simp_all add: stack_elems_def s'_def)
  have fit: "?I - ?E + ?E \<le> length (data c)" using ge sz(3) lc by simp
  have res: "pop_result s s'"
    unfolding pop_result_def
    using idx top us fit hd
    by (simp add: BLI_stack_discard_def BLI_stack_pop_def memcpy_def Let_def s'_def)
  have "?I - ?E \<le> ?C" using sz(3) by simp
  moreover have "?E dvd ?I - ?E" using k' by simp
  ultimately have inv': "stack_inv s'"
    using inv us by (simp add: stack_inv_def s'_def word_le_nat_alt)
  have "pop_post s s'"
    unfolding pop_post_def using inv' tl top by (simp add: s'_def)
  with res show ?thesis by blast
qed

lemma pop_next_chunk:
  assumes inv: "stack_inv s" and ne: "stack_elems s \<noteq> []" and idx: "chunk_index s = 0"
  shows "\<exists>s'. pop_result s s' \<and> pop_post s s'"
proof -
  let ?E = "unat (elem_size s)" and ?C = "unat (chunk_size s)"
  note sz = inv_sizes [OF inv]
  from ne obtain c where top: "top_chunk s = Some c"
    by (cases "top_chunk s") (auto simp add: stack_elems_def)
  with ne idx have older: "stack_elems s = older_elems ?E (nxt c)"
    by (simp add: stack_elems_def chunk_elems_0)
  with ne obtain c2 where nx: "nxt c = Some c2"
    by (cases "nxt c") (auto simp add: older_elems_None)
  from inv top nx have lc: "length (data c2) = ?C"
    by (simp add: stack_inv_def chain_Some)
  from sz(2) have le: "elem_size s \<le> chunk_size s" by (simp add: word_le_nat_alt)
  then have us: "unat (chunk_size s - elem_size s) = ?C - ?E" by (rule unat_sub)
  from inv have dC: "?E dvd ?C" by (simp add: stack_inv_def)
  with sz(2) obtain k where k: "?C = k * ?E + ?E"
    by (metis dvd_div_mult_self le_add_diff_inverse2 dvd_diff_nat dvd_refl)
  then have k': "?C - ?E = k * ?E" by simp
  define s' where "s' = s\<lparr>top_chunk := Some c2,
                           chunks_freed := Suc (chunks_freed s),
                           chunk_index := chunk_size s - elem_size s,
                           element_count := element_count s - 1\<rparr>"
  have split: "chunk_elems ?E ?C (data c2) =
      take ?E (drop (?C - ?E) (data c2)) # chunk_elems ?E (?C - ?E) (data c2)"
    unfolding k' unfolding k using sz(1) by (rule chunk_elems_last)
  then have hd: "hd (stack_elems s) = take ?E (drop (?C - ?E) (data c2))"
    and tl: "tl (stack_elems s) = stack_elems s'"
    using older nx lc us by (simp_all add: stack_elems_def s'_def older_elems_Some)
  have fit: "?C - ?E + ?E \<le> length (data c2)" using sz(2) lc by simp
  have res: "pop_result s s'"
    unfolding pop_result_def
    using idx top nx us fit hd
    by (simp add: BLI_stack_discard_def BLI_stack_pop_def memcpy_def Let_def s'_def)
  have "?E dvd ?C - ?E" using k' by simp
  then have inv': "stack_inv s'"
    using inv us top nx by (simp add: stack_inv_def s'_def word_le_nat_alt chain_Some)
  have "pop_post s s'"
    unfolding pop_post_def using inv' tl top nx by (simp add: s'_def chain_length_Some)
  with res show ?thesis by blast
qed

lemma pop_ok:
  assumes "stack_inv s" and "stack_elems s \<noteq> []"
  shows "\<exists>s'. pop_result s s' \<and> pop_post s s'"
  using assms pop_same_chunk pop_next_chunk by (cases "chunk_index s = 0") blast+

section \<open>Many pushes, many pops\<close>

lemma new_ex_inv:
  assumes "BLI_stack_new_ex e descr cs = Inr s0"
    and "chunk_size s0 \<noteq> 0" and "unat e dvd unat (chunk_size s0)"
  shows "stack_inv s0" and "stack_elems s0 = []" and "elem_size s0 = e"
    and "chunks_allocated s0 = 0" and "chunks_freed s0 = 0" and "top_chunk s0 = None"
    and "element_count s0 = 0"
  using assms
  by (auto simp add: BLI_stack_new_ex_def stack_inv_def stack_elems_def chain_None word_gt_0
      split: if_splits)

lemma push_all_ok:
  assumes "stack_inv s" and "list_all (\<lambda>v. length v = unat (elem_size s)) vs"
  shows "\<exists>s'. push_all s vs = Inr s' \<and> stack_inv s'
           \<and> stack_elems s' = rev vs @ stack_elems s
           \<and> elem_size s' = elem_size s \<and> chunk_size s' = chunk_size s
           \<and> element_count s' = element_count s + of_nat (length vs)
           \<and> chunks_freed s' = chunks_freed s
           \<and> chunks_allocated s' + chain_length (top_chunk s) =
                 chunks_allocated s + chain_length (top_chunk s')
           \<and> (vs \<noteq> [] \<longrightarrow> top_chunk s' \<noteq> None \<and> chunk_index s' \<noteq> 0)"
  using assms
proof (induction vs arbitrary: s)
  case Nil
  then show ?case by simp
next
  case (Cons v vs)
  from Cons.prems have len: "length v = unat (elem_size s)"
    and rest: "list_all (\<lambda>v. length v = unat (elem_size s)) vs" by simp_all
  from push_ok [OF Cons.prems(1), of v] len
  obtain s1 where p1: "BLI_stack_push s (Some v) = Inr s1" and post: "push_post s v s1"
    by auto
  from post len have inv1: "stack_inv s1" and e1: "elem_size s1 = elem_size s"
    and el1: "stack_elems s1 = v # stack_elems s"
    by (simp_all add: push_post_def)
  from Cons.IH [OF inv1] rest e1
  obtain s' where p2: "push_all s1 vs = Inr s'" and inv': "stack_inv s'"
    and el': "stack_elems s' = rev vs @ stack_elems s1"
    and same: "elem_size s' = elem_size s1" "chunk_size s' = chunk_size s1"
    and cnt: "element_count s' = element_count s1 + of_nat (length vs)"
    and fr: "chunks_freed s' = chunks_freed s1"
    and al: "chunks_allocated s' + chain_length (top_chunk s1) =
               chunks_allocated s1 + chain_length (top_chunk s')"
    and top: "vs \<noteq> [] \<longrightarrow> top_chunk s' \<noteq> None \<and> chunk_index s' \<noteq> 0"
    by auto
  have top': "top_chunk s' \<noteq> None \<and> chunk_index s' \<noteq> 0"
  proof (cases vs)
    case Nil
    with p2 have "s' = s1" by simp
    with post show ?thesis by (simp add: push_post_def)
  next
    case (Cons a list)
    with top show ?thesis by simp
  qed
  from post have al1: "chunks_allocated s1 + chain_length (top_chunk s) =
               chunks_allocated s + chain_length (top_chunk s1)"
    and post': "chunk_size s1 = chunk_size s" "element_count s1 = element_count s + 1"
       "chunks_freed s1 = chunks_freed s"
    by (simp_all add: push_post_def)
  have "push_all s (v # vs) = Inr s'" using p1 p2 by simp
  moreover have "stack_elems s' = rev (v # vs) @ stack_elems s" using el' el1 by simp
  moreover have "element_count s' = element_count s + of_nat (length (v # vs))"
    using cnt post' by simp
  moreover have "chunks_allocated s' + chain_length (top_chunk s) =
                 chunks_allocated s + chain_length (top_chunk s')"
    using al al1 by linarith
  ultimately show ?case using inv' same e1 post' fr top' by auto
qed

lemma chunk_elems_length:
  assumes "x \<in> set (chunk_elems e n d)" and "n \<le> length d" and "0 < e"
  shows "length x = e"
proof -
  from assms(1) obtain i where i: "i < n div e" and x: "x = slot e d i"
    by (auto simp add: chunk_elems_def)
  from i have "Suc i \<le> n div e" by simp
  then have "Suc i * e \<le> n div e * e" by (rule mult_le_mono1)
  also have "\<dots> \<le> n" by simp
  finally have "i * e + e \<le> length d" using assms(2) by simp
  then show ?thesis by (simp add: x slot_def)
qed

lemma elems_length:
  assumes "stack_inv s"
  shows "list_all (\<lambda>x. length x = unat (elem_size s)) (stack_elems s)"
proof (cases "top_chunk s")
  case None
  then show ?thesis by (simp add: stack_elems_def)
next
  case (Some c)
  note sz = inv_sizes [OF assms]
  from assms Some have lc: "length (data c) = unat (chunk_size s)"
    and rest: "list_all (\<lambda>d. length d = unat (chunk_size s)) (chain (nxt c))"
    by (simp_all add: stack_inv_def chain_Some)
  have "length x = unat (elem_size s)" if "x \<in> set (stack_elems s)" for x
  proof -
    from that Some consider
      "x \<in> set (chunk_elems (unat (elem_size s)) (unat (chunk_index s)) (data c))"
      | d where "d \<in> set (chain (nxt c))" "x \<in> set (chunk_elems (unat (elem_size s)) (length d) d)"
      by (auto simp add: stack_elems_def older_elems_def)
    then show ?thesis
    proof cases
      case 1
      then show ?thesis using sz lc by (auto intro: chunk_elems_length)
    next
      case 2
      then show ?thesis using sz by (auto intro: chunk_elems_length)
    qed
  qed
  then show ?thesis by (simp add: list_all_iff)
qed

lemma pop_times_ok:
  assumes "stack_inv s" and "n \<le> length (stack_elems s)"
  shows "\<exists>s'. pop_times s n = Inr (s', take n (stack_elems s)) \<and> stack_inv s'
           \<and> stack_elems s' = drop n (stack_elems s)
           \<and> elem_size s' = elem_size s \<and> chunk_size s' = chunk_size s
           \<and> element_count s' = element_count s - of_nat n
           \<and> chunks_allocated s' = chunks_allocated s
           \<and> chunks_freed s' + chain_length (top_chunk s') =
                 chunks_freed s + chain_length (top_chunk s)
           \<and> (0 < n \<longrightarrow> top_chunk s' \<noteq> None)"
  using assms
proof (induction n arbitrary: s)
  case 0
  then show ?case by simp
next
  case (Suc n)
  let ?E = "unat (elem_size s)"
  from Suc.prems have ne: "stack_elems s \<noteq> []" by auto
  from pop_ok [OF Suc.prems(1) ne]
  obtain s1 where res: "pop_result s s1" and post: "pop_post s s1" by auto
  from elems_length [OF Suc.prems(1)] ne have lh: "length (hd (stack_elems s)) = ?E"
    by (cases "stack_elems s") simp_all
  from res have "BLI_stack_pop s (replicate ?E Uninit) (Some 0) =
      Inr (s1, take 0 (replicate ?E Uninit) @ hd (stack_elems s) @ drop (0 + ?E) (replicate ?E Uninit))"
    unfolding pop_result_def by (metis add_0 length_replicate order_refl)
  then have p1: "BLI_stack_pop s (replicate ?E Uninit) (Some 0) = Inr (s1, hd (stack_elems s))"
    by simp
  from post have inv1: "stack_inv s1" and el1: "stack_elems s1 = tl (stack_elems s)"
    and e1: "elem_size s1 = elem_size s" and c1: "chunk_size s1 = chunk_size s"
    and n1: "element_count s1 = element_count s - 1"
    and a1: "chunks_allocated s1 = chunks_allocated s"
    and f1: "chunks_freed s1 + chain_length (top_chunk s1) =
               chunks_freed s + chain_length (top_chunk s)"
    and t1: "top_chunk s1 \<noteq> None"
    by (simp_all add: pop_post_def)
  from Suc.prems el1 have "n \<le> length (stack_elems s1)" by simp
  from Suc.IH [OF inv1 this]
  obtain s' where p2: "pop_times s1 n = Inr (s', take n (stack_elems s1))"
    and inv': "stack_inv s'" and el': "stack_elems s' = drop n (stack_elems s1)"
    and same: "elem_size s' = elem_size s1" "chunk_size s' = chunk_size s1"
    and cnt: "element_count s' = element_count s1 - of_nat n"
    and al: "chunks_allocated s' = chunks_allocated s1"
    and fr: "chunks_freed s' + chain_length (top_chunk s') =
               chunks_freed s1 + chain_length (top_chunk s1)"
    and top: "0 < n \<longrightarrow> top_chunk s' \<noteq> None"
    by auto
  have top': "top_chunk s' \<noteq> None"
  proof (cases n)
    case 0
    with p2 have "s' = s1" by simp
    with t1 show ?thesis by simp
  next
    case (Suc m)
    with top show ?thesis by simp
  qed
  have "take (Suc n) (stack_elems s) = hd (stack_elems s) # take n (stack_elems s1)"
    using ne el1 by (cases "stack_elems s") simp_all
  then have "pop_times s (Suc n) = Inr (s', take (Suc n) (stack_elems s))"
    using p1 p2 by simp
  moreover have "stack_elems s' = drop (Suc n) (stack_elems s)"
    using el' el1 by (simp add: drop_Suc)
  moreover have "element_count s' = element_count s - of_nat (Suc n)"
    using cnt n1 by simp
  moreover have "chunks_freed s' + chain_length (top_chunk s') =
                 chunks_freed s + chain_length (top_chunk s)"
    using fr f1 by linarith
  ultimately show ?case using inv' same e1 c1 al a1 top' by auto
qed

lemma chain_length_chain: "chain_length p = length (chain p)"
proof (cases p)
  case None
  then show ?thesis by (simp add: chain_length_def chain_def)
next
  case (Some c)
  have "chunk_count c = length (chunk_datas c)"
    by (induction c rule: chunk_datas.induct) simp_all
  with Some show ?thesis by (simp add: chain_length_def chain_def)
qed

lemma length_full_chunks:
  "list_all (\<lambda>d. length d = n) ds \<Longrightarrow>
   length (concat (map (\<lambda>d. chunk_elems e (length d) d) ds)) = length ds * (n div e)"
  by (induction ds) (simp_all add: chunk_elems_def)

lemma elems_count:
  assumes "stack_inv s" and "top_chunk s = Some c"
  shows "length (stack_elems s) =
           unat (chunk_index s) div unat (elem_size s)
           + chain_length (nxt c) * (unat (chunk_size s) div unat (elem_size s))"
proof -
  from assms have "list_all (\<lambda>d. length d = unat (chunk_size s)) (chain (nxt c))"
    by (simp add: stack_inv_def chain_Some)
  then have "length (older_elems (unat (elem_size s)) (nxt c)) =
      length (chain (nxt c)) * (unat (chunk_size s) div unat (elem_size s))"
    unfolding older_elems_def by (rule length_full_chunks)
  then show ?thesis using assms(2)
    by (simp add: stack_elems_def chunk_elems_def chain_length_chain)
qed

lemma discard_inv:
  assumes inv: "stack_inv s" and run: "BLI_stack_discard s = Inr s'"
  shows "stack_inv s' \<and> elem_size s' = elem_size s \<and> chunk_size s' = chunk_size s"
proof (cases "chunk_index s = 0")
  case True
  note sz = inv_sizes [OF inv]
  from True run obtain c where top: "top_chunk s = Some c"
    by (cases "top_chunk s") (simp_all add: BLI_stack_discard_def)
  with True run have s': "s' = s\<lparr>top_chunk := nxt c, chunks_freed := Suc (chunks_freed s),
      chunk_index := chunk_size s - elem_size s, element_count := element_count s - 1\<rparr>"
    by (simp add: BLI_stack_discard_def)
  from sz(2) have "elem_size s \<le> chunk_size s" by (simp add: word_le_nat_alt)
  then have us: "unat (chunk_size s - elem_size s) = unat (chunk_size s) - unat (elem_size s)"
    by (rule unat_sub)
  from inv have "unat (elem_size s) dvd unat (chunk_size s) - unat (elem_size s)"
    by (simp add: stack_inv_def)
  then show ?thesis using inv us top
    by (simp add: s' stack_inv_def chain_Some word_le_nat_alt)
next
  case False
  with run have s': "s' = s\<lparr>chunk_index := chunk_index s - elem_size s,
      element_count := element_count s - 1\<rparr>"
    by (simp add: BLI_stack_discard_def)
  from inv have dI: "unat (elem_size s) dvd unat (chunk_index s)" by (simp add: stack_inv_def)
  from False have "0 < unat (chunk_index s)" by (simp add: unat_gt_0)
  with dI have "unat (elem_size s) \<le> unat (chunk_index s)" by (simp add: dvd_imp_le)
  then have "elem_size s \<le> chunk_index s" by (simp add: word_le_nat_alt)
  then have us: "unat (chunk_index s - elem_size s) = unat (chunk_index s) - unat (elem_size s)"
    by (rule unat_sub)
  from dI have "unat (elem_size s) dvd unat (chunk_index s) - unat (elem_size s)" by simp
  moreover have "unat (chunk_index s) - unat (elem_size s) \<le> unat (chunk_size s)"
    using inv_sizes(3) [OF inv] by simp
  ultimately show ?thesis using inv us
    by (simp add: s' stack_inv_def word_le_nat_alt)
qed

lemma pop_discard:
  assumes "BLI_stack_pop s mem dst = Inr (s', mem')"
  shows "BLI_stack_discard s = Inr s'"
  using assms
  by (auto simp add: BLI_stack_pop_def BLI_stack_discard_def Let_def
      split: if_splits option.splits)

lemma pop_inv:
  assumes "stack_inv s" and "BLI_stack_pop s mem dst = Inr (s', mem')"
  shows "stack_inv s' \<and> elem_size s' = elem_size s \<and> chunk_size s' = chunk_size s"
  using assms(1) pop_discard [OF assms(2)] by (rule discard_inv)

lemma push_r_inv:
  assumes inv: "stack_inv s"
  shows "stack_inv (fst (BLI_stack_push_r s))
         \<and> elem_size (fst (BLI_stack_push_r s)) = elem_size s
         \<and> chunk_size (fst (BLI_stack_push_r s)) = chunk_size s"
proof (cases "top_chunk s = None \<or> chunk_index s = chunk_size s")
  case True
  note sz = inv_sizes [OF inv]
  from True have "fst (BLI_stack_push_r s) =
      s\<lparr>top_chunk := Some (StackChunk (top_chunk s) (replicate (unat (chunk_size s)) Uninit)),
        chunks_allocated := Suc (chunks_allocated s),
        chunk_index := elem_size s, element_count := element_count s + 1\<rparr>"
    by (auto simp add: BLI_stack_push_r_def Let_def)
  then show ?thesis using inv sz
    by (simp add: stack_inv_def chain_Some word_le_nat_alt)
next
  case False
  note sz = inv_sizes [OF inv]
  from False have r: "fst (BLI_stack_push_r s) =
      s\<lparr>chunk_index := chunk_index s + elem_size s, element_count := element_count s + 1\<rparr>"
    by (auto simp add: BLI_stack_push_r_def Let_def)
  from inv have dE: "unat (elem_size s) dvd unat (chunk_size s)"
    and dI: "unat (elem_size s) dvd unat (chunk_index s)" by (simp_all add: stack_inv_def)
  from False have "unat (chunk_index s) \<noteq> unat (chunk_size s)" by (simp add: word_unat_eq_iff)
  with sz(3) have "unat (chunk_index s) < unat (chunk_size s)" by simp
  then have fit: "unat (chunk_index s) + unat (elem_size s) \<le> unat (chunk_size s)"
    by (rule dvd_step_le [OF dI dE])
  have "unat (chunk_size s) < 2 ^ 64"
    using unsigned_less [of "chunk_size s", where 'a = nat] by simp
  with fit have "unat (chunk_index s) + unat (elem_size s) < 2 ^ LENGTH(64)" by simp
  then have ua: "unat (chunk_index s + elem_size s) = unat (chunk_index s) + unat (elem_size s)"
    using unat_add_lem [of "chunk_index s" "elem_size s"] by simp
  show ?thesis using inv ua fit dI
    by (simp add: r stack_inv_def word_le_nat_alt)
qed

lemma push_inv:
  assumes inv: "stack_inv s" and run: "BLI_stack_push s src = Inr s'"
  shows "stack_inv s' \<and> elem_size s' = elem_size s \<and> chunk_size s' = chunk_size s"
proof -
  from run obtain v where src: "src = Some v"
    by (cases src) (simp_all add: BLI_stack_push_def)
  have "unat (elem_size s) \<le> length v"
  proof (rule ccontr)
    assume "\<not> unat (elem_size s) \<le> length v"
    then have "BLI_stack_push s (Some v) \<noteq> Inr s'"
      by (auto simp add: BLI_stack_push_def BLI_stack_push_r_def memcpy_def Let_def
          split: option.splits)
    with run src show False by simp
  qed
  from push_ok [OF inv this] run src show ?thesis by (auto simp add: push_post_def)
qed

lemma clear_loop_fields:
  "top_chunk (clear_loop s) = None \<and> elem_size (clear_loop s) = elem_size s
   \<and> chunk_size (clear_loop s) = chunk_size s
   \<and> chunks_allocated (clear_loop s) = chunks_allocated s
   \<and> chunks_freed (clear_loop s) = chunks_freed s + chain_length (top_chunk s)"
proof (induction s rule: clear_loop.induct)
  case (1 stack)
  show ?case
  proof (cases "top_chunk stack")
    case None
    then show ?thesis by (simp add: clear_loop.simps [of stack] chain_length_def)
  next
    case (Some c)
    with 1 [OF Some] show ?thesis
      by (simp add: clear_loop.simps [of stack] chain_length_Some)
  qed
qed

lemma clear_inv:
  assumes "stack_inv s"
  shows "stack_inv (BLI_stack_clear s) \<and> elem_size (BLI_stack_clear s) = elem_size s
         \<and> chunk_size (BLI_stack_clear s) = chunk_size s"
  using assms clear_loop_fields [of s]
  by (simp add: BLI_stack_clear_def stack_inv_def chain_None)

lemma pop_n_loop_inv:
  assumes "stack_inv s" and "pop_n_loop s mem d i n = Inr (s', mem')"
  shows "stack_inv s' \<and> elem_size s' = elem_size s \<and> chunk_size s' = chunk_size s"
  using assms
proof (induction s mem d i n rule: pop_n_loop.induct)
  case (1 stack mem dst i n)
  show ?case
  proof (cases "i < n")
    case False
    with "1.prems" show ?thesis by (simp add: pop_n_loop.simps [of stack mem dst i n])
  next
    case True
    with "1.prems"(2) obtain s1 m1
      where p: "BLI_stack_pop stack mem (Some (dst + unat (of_nat i * elem_size stack))) = Inr (s1, m1)"
        and rest: "pop_n_loop s1 m1 dst (i + 1) n = Inr (s', mem')"
      by (auto simp add: pop_n_loop.simps [of stack mem dst i n] split: sum.splits)
    from pop_inv [OF "1.prems"(1) p] have i1: "stack_inv s1"
      and e1: "elem_size s1 = elem_size stack" "chunk_size s1 = chunk_size stack" by simp_all
    from "1.IH" [OF True p refl i1 rest] e1 show ?thesis by simp
  qed
qed

lemma pop_n_reverse_loop_inv:
  assumes "stack_inv s" and "pop_n_reverse_loop s mem d i = Inr (s', mem')"
  shows "stack_inv s' \<and> elem_size s' = elem_size s \<and> chunk_size s' = chunk_size s"
  using assms
proof (induction i arbitrary: s mem)
  case 0
  then show ?case by simp
next
  case (Suc i)
  from Suc.prems(2) obtain s1 m1
    where p: "BLI_stack_pop s mem (Some (d + unat (of_nat i * elem_size s))) = Inr (s1, m1)"
      and rest: "pop_n_reverse_loop s1 m1 d i = Inr (s', mem')"
    by (auto split: sum.splits)
  from pop_inv [OF Suc.prems(1) p] have i1: "stack_inv s1"
    and e1: "elem_size s1 = elem_size s" "chunk_size s1 = chunk_size s" by simp_all
  from Suc.IH [OF i1 rest] e1 show ?case by simp
qed

lemma apply_op_inv:
  assumes "stack_inv s" and "apply_op s x = Inr s'"
  shows "stack_inv s' \<and> elem_size s' = elem_size s \<and> chunk_size s' = chunk_size s"
proof (cases x)
  case (Push src)
  with assms(2) have "BLI_stack_push s src = Inr s'" by simp
  with assms(1) show ?thesis by (rule push_inv)
next
  case Push_r
  with assms push_r_inv [of s] show ?thesis by auto
next
  case (Pop mem dst)
  with assms(2) obtain m where "BLI_stack_pop s mem dst = Inr (s', m)"
    by (cases "BLI_stack_pop s mem dst") auto
  with assms(1) show ?thesis by (rule pop_inv)
next
  case Discard
  with assms(2) have "BLI_stack_discard s = Inr s'" by simp
  with assms(1) show ?thesis by (rule discard_inv)
next
  case (Pop_n mem dst n)
  with assms(2) obtain m d where "pop_n_loop s mem d 0 (unat n) = Inr (s', m)"
    by (cases dst; cases "BLI_stack_pop_n s mem dst n") (auto simp add: BLI_stack_pop_n_def)
  with assms(1) show ?thesis by (rule pop_n_loop_inv)
next
  case (Pop_n_reverse mem dst n)
  with assms(2) obtain m d where "pop_n_reverse_loop s mem d (unat n) = Inr (s', m)"
    by (cases dst; cases "BLI_stack_pop_n_reverse s mem dst n")
       (auto simp add: BLI_stack_pop_n_reverse_def)
  with assms(1) show ?thesis by (rule pop_n_reverse_loop_inv)
next
  case Clear
  with assms clear_inv [of s] show ?thesis by auto
qed

lemma run_inv:
  assumes "stack_inv s" and "run s xs = Inr s'"
  shows "stack_inv s' \<and> elem_size s' = elem_size s \<and> chunk_size s' = chunk_size s"
  using assms
proof (induction xs arbitrary: s)
  case Nil
  then show ?case by simp
next
  case (Cons x xs)
  from Cons.prems(2) obtain s1 where a: "apply_op s x = Inr s1" and r: "run s1 xs = Inr s'"
    by (auto split: sum.splits)
  from apply_op_inv [OF Cons.prems(1) a] Cons.IH [OF _ r] show ?case by simp
qed

lemma push_count:
  assumes "BLI_stack_push s src = Inr s'"
  shows "element_count s' = element_count s + 1"
  using assms
  by (auto simp add: BLI_stack_push_def BLI_stack_push_r_def Let_def
      split: option.splits if_splits)

lemma push_r_count: "element_count (fst (BLI_stack_push_r s)) = element_count s + 1"
  by (simp add: BLI_stack_push_r_def Let_def)

lemma discard_count:
  assumes "BLI_stack_discard s = Inr s'"
  shows "element_count s' = element_count s - 1"
  using assms
  by (auto simp add: BLI_stack_discard_def split: option.splits if_splits)

lemma apply_op_count:
  assumes "apply_op s x = Inr s'"
  shows "is_push x \<Longrightarrow> element_count s' = element_count s + 1"
    and "is_pop x \<Longrightarrow> element_count s' = element_count s - 1"
proof -
  show "element_count s' = element_count s + 1" if "is_push x"
  proof (cases x)
    case (Push src)
    with assms have "BLI_stack_push s src = Inr s'" by simp
    then show ?thesis by (rule push_count)
  next
    case Push_r
    with assms show ?thesis by (auto simp add: push_r_count)
  qed (use that in simp_all)
  show "element_count s' = element_count s - 1" if "is_pop x"
  proof (cases x)
    case (Pop mem dst)
    with assms obtain m where "BLI_stack_pop s mem dst = Inr (s', m)"
      by (cases "BLI_stack_pop s mem dst") auto
    then have "BLI_stack_discard s = Inr s'" by (rule pop_discard)
    then show ?thesis by (rule discard_count)
  next
    case Discard
    with assms have "BLI_stack_discard s = Inr s'" by simp
    then show ?thesis by (rule discard_count)
  qed (use that in simp_all)
qed

lemma push_not_pop: "is_push x \<Longrightarrow> \<not> is_pop x"
  by (cases x) simp_all

lemma run_count:
  assumes "run s xs = Inr s'" and "pops_on_nonempty k xs"
  shows "element_count s' = element_count s + of_nat (pushes xs) - of_nat (pops xs)"
  using assms
proof (induction xs arbitrary: s k)
  case Nil
  then show ?case by (simp add: pushes_def pops_def)
next
  case (Cons x xs)
  from Cons.prems(1) obtain s1 where a: "apply_op s x = Inr s1" and r: "run s1 xs = Inr s'"
    by (auto split: sum.splits)
  show ?case
  proof (cases "is_push x")
    case True
    with Cons.prems(2) have "pops_on_nonempty (Suc k) xs" by simp
    from Cons.IH [OF r this] apply_op_count(1) [OF a True] True push_not_pop [OF True]
    show ?thesis by (simp add: pushes_def pops_def)
  next
    case False
    with Cons.prems(2) have p: "is_pop x" and "pops_on_nonempty (k - 1) xs"
      by (simp_all split: if_splits)
    from Cons.IH [OF r this(2)] apply_op_count(2) [OF a p] False p
    show ?thesis by (simp add: pushes_def pops_def)
  qed
qed

lemma pops_bounded:
  assumes "pops_on_nonempty k xs"
  shows "pops xs \<le> k + pushes xs"
  using assms
proof (induction xs arbitrary: k)
  case Nil
  then show ?case by (simp add: pops_def)
next
  case (Cons x xs)
  show ?case
  proof (cases "is_push x")
    case True
    with Cons.prems have "pops_on_nonempty (Suc k) xs" by simp
    from Cons.IH [OF this] True push_not_pop [OF True]
    show ?thesis by (simp add: pushes_def pops_def)
  next
    case False
    with Cons.prems have p: "is_pop x" and k: "0 < k" and "pops_on_nonempty (k - 1) xs"
      by (simp_all split: if_splits)
    from Cons.IH [OF this(3)] False p k
    show ?thesis by (simp add: pushes_def pops_def)
  qed
qed

lemma push_r_elems:
  assumes inv: "stack_inv s"
  shows "length (stack_elems (fst (BLI_stack_push_r s))) = Suc (length (stack_elems s))"
proof -
  let ?E = "unat (elem_size s)" and ?C = "unat (chunk_size s)"
  note sz = inv_sizes [OF inv]
  from push_r_inv [OF inv] have inv1: "stack_inv (fst (BLI_stack_push_r s))"
    and same: "elem_size (fst (BLI_stack_push_r s)) = elem_size s"
      "chunk_size (fst (BLI_stack_push_r s)) = chunk_size s" by simp_all
  show ?thesis
  proof (cases "top_chunk s = None \<or> chunk_index s = chunk_size s")
    case True
    then have top1: "top_chunk (fst (BLI_stack_push_r s)) =
        Some (StackChunk (top_chunk s) (replicate ?C Uninit))"
      and idx1: "chunk_index (fst (BLI_stack_push_r s)) = elem_size s"
      by (auto simp add: BLI_stack_push_r_def Let_def)
    have old: "length (stack_elems s) = chain_length (top_chunk s) * (?C div ?E)"
    proof (cases "top_chunk s")
      case None
      then show ?thesis by (simp add: stack_elems_def chain_length_def)
    next
      case (Some c)
      with True have "chunk_index s = chunk_size s" by simp
      with elems_count [OF inv Some] Some show ?thesis by (simp add: chain_length_Some)
    qed
    from elems_count [OF inv1 top1] idx1 same old sz(1) show ?thesis by simp
  next
    case False
    then obtain c where top: "top_chunk s = Some c" and room: "chunk_index s \<noteq> chunk_size s"
      by auto
    then have top1: "top_chunk (fst (BLI_stack_push_r s)) = Some c"
      and idx1: "chunk_index (fst (BLI_stack_push_r s)) = chunk_index s + elem_size s"
      by (auto simp add: BLI_stack_push_r_def Let_def)
    from inv have dE: "?E dvd ?C" and dI: "?E dvd unat (chunk_index s)"
      by (simp_all add: stack_inv_def)
    from room have "unat (chunk_index s) \<noteq> ?C" by (simp add: word_unat_eq_iff)
    with sz(3) have "unat (chunk_index s) < ?C" by simp
    then have fit: "unat (chunk_index s) + ?E \<le> ?C" by (rule dvd_step_le [OF dI dE])
    have "?C < 2 ^ 64" using unsigned_less [of "chunk_size s", where 'a = nat] by simp
    with fit have "unat (chunk_index s) + ?E < 2 ^ LENGTH(64)" by simp
    then have ua: "unat (chunk_index s + elem_size s) = unat (chunk_index s) + ?E"
      using unat_add_lem [of "chunk_index s" "elem_size s"] by simp
    have "(unat (chunk_index s) + ?E) div ?E = Suc (unat (chunk_index s) div ?E)"
      using sz(1) div_add_self2 [of ?E "unat (chunk_index s)"] by simp
    with elems_count [OF inv1 top1] elems_count [OF inv top] idx1 same ua
    show ?thesis by simp
  qed
qed

lemma run_total:
  assumes "stack_inv s" and "pops_on_nonempty (length (stack_elems s)) xs"
    and "list_all (arg_ok (unat (elem_size s))) xs"
  shows "\<exists>s'. run s xs = Inr s'"
  using assms
proof (induction xs arbitrary: s)
  case Nil
  then show ?case by simp
next
  case (Cons x xs)
  let ?E = "unat (elem_size s)"
  have step: "\<exists>s1. apply_op s x = Inr s1 \<and> stack_inv s1 \<and> elem_size s1 = elem_size s
      \<and> pops_on_nonempty (length (stack_elems s1)) xs"
  proof (cases x)
    case (Push src)
    with Cons.prems(3) obtain v where src: "src = Some v" and len: "?E \<le> length v"
      by (cases src) simp_all
    from push_ok [OF Cons.prems(1) len]
    obtain s1 where "BLI_stack_push s (Some v) = Inr s1" and "push_post s v s1" by auto
    with Cons.prems(2) Push src show ?thesis by (auto simp add: push_post_def)
  next
    case Push_r
    with Cons.prems(2) push_r_inv [OF Cons.prems(1)] push_r_elems [OF Cons.prems(1)]
    show ?thesis by simp
  next
    case (Pop mem dst)
    with Cons.prems(2) have ne: "stack_elems s \<noteq> []"
      and rest: "pops_on_nonempty (length (stack_elems s) - 1) xs" by simp_all
    from pop_ok [OF Cons.prems(1) ne]
    obtain s1 where res: "pop_result s s1" and post: "pop_post s s1" by auto
    have "\<exists>m. BLI_stack_pop s mem dst = Inr (s1, m)"
    proof (cases dst)
      case None
      with res show ?thesis by (simp add: pop_result_def)
    next
      case (Some d)
      with Cons.prems(3) Pop have "d + ?E \<le> length mem" by simp
      with res Some show ?thesis by (simp add: pop_result_def)
    qed
    with Pop post rest show ?thesis by (auto simp add: pop_post_def)
  next
    case Discard
    with Cons.prems(2) have ne: "stack_elems s \<noteq> []"
      and rest: "pops_on_nonempty (length (stack_elems s) - 1) xs" by simp_all
    from pop_ok [OF Cons.prems(1) ne]
    obtain s1 where res: "pop_result s s1" and post: "pop_post s s1" by auto
    with Discard rest show ?thesis by (auto simp add: pop_post_def pop_result_def)
  qed (use Cons.prems(2) in simp_all)
  then obtain s1 where a: "apply_op s x = Inr s1" and i1: "stack_inv s1"
    and e1: "elem_size s1 = elem_size s"
    and p1: "pops_on_nonempty (length (stack_elems s1)) xs" by auto
  from Cons.prems(3) e1 have "list_all (arg_ok (unat (elem_size s1))) xs" by simp
  from Cons.IH [OF i1 p1 this] a show ?case by simp
qed

lemma write_length:
  "a + length x \<le> length mem \<Longrightarrow> length (take a mem @ x @ drop (a + length x) mem) = length mem"
  by simp

lemma write_take:
  "a + length x \<le> length mem \<Longrightarrow>
   take (a + length x) (take a mem @ x @ drop (a + length x) mem) = take a mem @ x"
  by simp

lemma write_drop:
  "a + length x \<le> b \<Longrightarrow> b \<le> length mem \<Longrightarrow>
   drop b (take a mem @ x @ drop (a + length x) mem) = drop b mem"
  by simp

lemma write_take_before:
  "b \<le> a \<Longrightarrow> a \<le> length mem \<Longrightarrow> take b (take a mem @ w) = take b mem"
  by (simp add: min_def)

lemma write_drop_at:
  "a \<le> length mem \<Longrightarrow> drop a (take a mem @ w) = w"
  by simp

lemma unat_index_offset:
  assumes "elem_size s \<noteq> 0" and "i * unat (elem_size s) < 2 ^ 64"
  shows "unat (of_nat i * elem_size s) = i * unat (elem_size s)"
proof -
  have "0 < unat (elem_size s)" using assms(1) by (simp add: unat_gt_0)
  then have "i * 1 \<le> i * unat (elem_size s)" by (intro mult_le_mono2) simp
  then have "i \<le> i * unat (elem_size s)" by simp
  from this assms(2) have "i < 2 ^ 64" by (rule le_less_trans)
  then have "unat (of_nat i :: 64 word) = i" by (simp add: unat_of_nat)
  then show ?thesis using assms(2) by (simp add: unat_word_ariths)
qed

lemma pop_into:
  assumes "stack_inv s" and "stack_elems s = x # rest"
    and "a + unat (elem_size s) \<le> length mem"
  shows "\<exists>s'. BLI_stack_pop s mem (Some a) =
                Inr (s', take a mem @ x @ drop (a + length x) mem)
           \<and> stack_inv s' \<and> stack_elems s' = rest \<and> elem_size s' = elem_size s
           \<and> element_count s' = element_count s - 1"
    and "length x = unat (elem_size s)"
proof -
  from elems_length [OF assms(1)] assms(2) show lx: "length x = unat (elem_size s)" by simp
  from assms(2) have "stack_elems s \<noteq> []" by simp
  from pop_ok [OF assms(1) this]
  obtain s' where res: "pop_result s s'" and post: "pop_post s s'" by auto
  from res assms(2,3) lx
  have "BLI_stack_pop s mem (Some a) = Inr (s', take a mem @ x @ drop (a + length x) mem)"
    by (simp add: pop_result_def)
  with post assms(2)
  show "\<exists>s'. BLI_stack_pop s mem (Some a) =
                Inr (s', take a mem @ x @ drop (a + length x) mem)
           \<and> stack_inv s' \<and> stack_elems s' = rest \<and> elem_size s' = elem_size s
           \<and> element_count s' = element_count s - 1"
    by (auto simp add: pop_post_def)
qed

lemma pop_n_loop_ok:
  assumes "stack_inv s" and "i \<le> n" and "n - i \<le> length (stack_elems s)"
    and "d + n * unat (elem_size s) \<le> length mem" and "length mem < 2 ^ 64"
  shows "\<exists>s'. pop_n_loop s mem d i n =
                Inr (s', take (d + i * unat (elem_size s)) mem
                         @ concat (take (n - i) (stack_elems s))
                         @ drop (d + n * unat (elem_size s)) mem)
           \<and> stack_elems s' = drop (n - i) (stack_elems s)
           \<and> element_count s' = element_count s - of_nat (n - i)"
  using assms
proof (induction s mem d i n rule: pop_n_loop.induct)
  case (1 stack mem dst i n)
  let ?E = "unat (elem_size stack)"
  show ?case
  proof (cases "i < n")
    case False
    with "1.prems" have "i = n" by simp
    then show ?thesis by (simp add: pop_n_loop.simps [of stack mem dst n n])
  next
    case True
    from "1.prems"(1) have e0: "elem_size stack \<noteq> 0" by (simp add: stack_inv_def)
    from True have "Suc i \<le> n" by simp
    then have "Suc i * ?E \<le> n * ?E" by (rule mult_le_mono1)
    then have fit: "dst + i * ?E + ?E \<le> dst + n * ?E" by simp
    with "1.prems"(4) have room: "dst + i * ?E + ?E \<le> length mem" by simp
    with "1.prems"(5) have "i * ?E < 2 ^ 64" by simp
    with e0 have off: "unat (of_nat i * elem_size stack) = i * ?E" by (rule unat_index_offset)
    from True "1.prems"(3) obtain x rest where el: "stack_elems stack = x # rest"
      by (cases "stack_elems stack") simp_all
    from pop_into [OF "1.prems"(1) el room]
    obtain s1 where p: "BLI_stack_pop stack mem (Some (dst + i * ?E)) =
          Inr (s1, take (dst + i * ?E) mem @ x @ drop (dst + i * ?E + length x) mem)"
      and i1: "stack_inv s1" and el1: "stack_elems s1 = rest"
      and e1: "elem_size s1 = elem_size stack"
      and c1: "element_count s1 = element_count stack - 1"
      and lx: "length x = ?E" by auto
    define mem1 where "mem1 = take (dst + i * ?E) mem @ x @ drop (dst + i * ?E + length x) mem"
    have room': "dst + i * ?E + length x \<le> length mem" using room lx by simp
    have l1: "length mem1 = length mem" unfolding mem1_def using room' by (rule write_length)
    have t1: "take (dst + (i + 1) * ?E) mem1 = take (dst + i * ?E) mem @ x"
      using write_take [OF room'] lx by (simp add: mem1_def add.assoc)
    have d1: "drop (dst + n * ?E) mem1 = drop (dst + n * ?E) mem"
      unfolding mem1_def using fit lx "1.prems"(4) by (intro write_drop) simp_all
    have p': "BLI_stack_pop stack mem (Some (dst + unat (of_nat i * elem_size stack))) = Inr (s1, mem1)"
      using p off by (simp add: mem1_def)
    have "\<exists>s'. pop_n_loop s1 mem1 dst (i + 1) n =
                Inr (s', take (dst + (i + 1) * unat (elem_size s1)) mem1
                         @ concat (take (n - (i + 1)) (stack_elems s1))
                         @ drop (dst + n * unat (elem_size s1)) mem1)
           \<and> stack_elems s' = drop (n - (i + 1)) (stack_elems s1)
           \<and> element_count s' = element_count s1 - of_nat (n - (i + 1))"
    proof (rule "1.IH" [OF True p' refl i1])
      show "i + 1 \<le> n" using True by simp
      show "n - (i + 1) \<le> length (stack_elems s1)" using "1.prems"(3) el el1 by simp
      show "dst + n * unat (elem_size s1) \<le> length mem1" using "1.prems"(4) e1 l1 by simp
      show "length mem1 < 2 ^ 64" using "1.prems"(5) l1 by simp
    qed
    then obtain s' where r: "pop_n_loop s1 mem1 dst (i + 1) n =
                Inr (s', take (dst + (i + 1) * ?E) mem1
                         @ concat (take (n - (i + 1)) rest)
                         @ drop (dst + n * ?E) mem1)"
      and el': "stack_elems s' = drop (n - (i + 1)) rest"
      and c': "element_count s' = element_count s1 - of_nat (n - (i + 1))"
      using e1 el1 by auto
    from True have split: "n - i = Suc (n - (i + 1))" by simp
    have "pop_n_loop stack mem dst i n =
            Inr (s', take (dst + i * ?E) mem @ concat (take (n - i) (stack_elems stack))
                     @ drop (dst + n * ?E) mem)"
      using True p' r t1 d1 el split by (simp add: pop_n_loop.simps [of stack mem dst i n])
    moreover have "stack_elems s' = drop (n - i) (stack_elems stack)"
      using el' el split by simp
    moreover have "element_count s' = element_count stack - of_nat (n - i)"
      using c' c1 split by simp
    ultimately show ?thesis by blast
  qed
qed

lemma pop_n_reverse_loop_ok:
  assumes "stack_inv s" and "i \<le> length (stack_elems s)"
    and "d + i * unat (elem_size s) \<le> length mem" and "length mem < 2 ^ 64"
  shows "\<exists>s'. pop_n_reverse_loop s mem d i =
                Inr (s', take d mem @ concat (rev (take i (stack_elems s)))
                         @ drop (d + i * unat (elem_size s)) mem)
           \<and> stack_elems s' = drop i (stack_elems s)
           \<and> element_count s' = element_count s - of_nat i"
  using assms
proof (induction i arbitrary: s mem)
  case 0
  then show ?case by simp
next
  case (Suc i)
  let ?E = "unat (elem_size s)"
  from Suc.prems(1) have e0: "elem_size s \<noteq> 0" by (simp add: stack_inv_def)
  from Suc.prems(3) have room: "d + i * ?E + ?E \<le> length mem" by (simp add: add.assoc add.commute)
  with Suc.prems(4) have "i * ?E < 2 ^ 64" by simp
  with e0 have off: "unat (of_nat i * elem_size s) = i * ?E" by (rule unat_index_offset)
  from Suc.prems(2) obtain x rest where el: "stack_elems s = x # rest"
    by (cases "stack_elems s") simp_all
  from pop_into [OF Suc.prems(1) el room]
  obtain s1 where p: "BLI_stack_pop s mem (Some (d + i * ?E)) =
        Inr (s1, take (d + i * ?E) mem @ x @ drop (d + i * ?E + length x) mem)"
    and i1: "stack_inv s1" and el1: "stack_elems s1 = rest"
    and e1: "elem_size s1 = elem_size s"
    and c1: "element_count s1 = element_count s - 1"
    and lx: "length x = ?E" by auto
  define mem1 where "mem1 = take (d + i * ?E) mem @ x @ drop (d + i * ?E + length x) mem"
  have room': "d + i * ?E + length x \<le> length mem" using room lx by simp
  have l1: "length mem1 = length mem" unfolding mem1_def using room' by (rule write_length)
  have t1: "take d mem1 = take d mem"
    unfolding mem1_def using room by (intro write_take_before) simp_all
  have eq: "d + i * ?E + length x = d + Suc i * ?E" using lx by simp
  have "d + i * ?E \<le> length mem" using room by simp
  then have d1: "drop (d + i * ?E) mem1 = x @ drop (d + Suc i * ?E) mem"
    unfolding mem1_def eq by (rule write_drop_at)
  have p': "BLI_stack_pop s mem (Some (d + unat (of_nat (Suc i - 1) * elem_size s))) = Inr (s1, mem1)"
    using p off by (simp add: mem1_def)
  have "\<exists>s'. pop_n_reverse_loop s1 mem1 d i =
                Inr (s', take d mem1 @ concat (rev (take i (stack_elems s1)))
                         @ drop (d + i * unat (elem_size s1)) mem1)
           \<and> stack_elems s' = drop i (stack_elems s1)
           \<and> element_count s' = element_count s1 - of_nat i"
  proof (rule Suc.IH [OF i1])
    show "i \<le> length (stack_elems s1)" using Suc.prems(2) el el1 by simp
    show "d + i * unat (elem_size s1) \<le> length mem1" using room e1 l1 by simp
    show "length mem1 < 2 ^ 64" using Suc.prems(4) l1 by simp
  qed
  then obtain s' where r: "pop_n_reverse_loop s1 mem1 d i =
                Inr (s', take d mem @ concat (rev (take i rest)) @ x @ drop (d + Suc i * ?E) mem)"
    and el': "stack_elems s' = drop i rest"
    and c': "element_count s' = element_count s1 - of_nat i"
    using e1 el1 t1 d1 by auto
  have "pop_n_reverse_loop s mem d (Suc i) =
          Inr (s', take d mem @ concat (rev (take (Suc i) (stack_elems s)))
                   @ drop (d + Suc i * ?E) mem)"
    using p' r el by simp
  moreover have "stack_elems s' = drop (Suc i) (stack_elems s)" using el' el by simp
  moreover have "element_count s' = element_count s - of_nat (Suc i)" using c' c1 by simp
  ultimately show ?case by blast
qed

section \<open>Discard and pop with a null destination\<close>

text \<open>
  Claim C9. \<^verbatim>\<open>BLI_stack_discard(stack)\<close> and \<^verbatim>\<open>BLI_stack_pop(stack, nullptr)\<close> do the
  same on every stack, empty or not: where one fails its assertion so does the other, and
  where one returns, both leave the same stack (chunk chain, offset, element count and
  the count of freed chunks); the pop leaves the caller's memory as it was.
\<close>

theorem discard_is_pop_null:
  "BLI_stack_pop s mem None =
     (case BLI_stack_discard s of Inl f \<Rightarrow> Inl f | Inr s' \<Rightarrow> Inr (s', mem))"
  by (simp add: BLI_stack_pop_def BLI_stack_discard_def Let_def split: option.split)

section \<open>Popping no element\<close>

text \<open>
  Claim C10. With a non-null destination, \<^verbatim>\<open>BLI_stack_pop_n(stack, dst, 0)\<close> and
  \<^verbatim>\<open>BLI_stack_pop_n_reverse(stack, dst, 0)\<close> return with the stack unchanged in every
  field and the destination buffer unchanged, on every stack, the empty one included.
\<close>

theorem pop_n_zero:
  "BLI_stack_pop_n s mem (Some d) 0 = Inr (s, mem)
   \<and> BLI_stack_pop_n_reverse s mem (Some d) 0 = Inr (s, mem)"
  by (simp add: BLI_stack_pop_n_def BLI_stack_pop_n_reverse_def pop_n_loop.simps)

section \<open>Last in, first out\<close>

text \<open>
  Claim C1, as amended. A stack is created with element size \<open>e\<close>, the chunk size
  the constructor settles on is a positive multiple of \<open>e\<close> (in bytes), and the
  allocation request for a chunk of that size does not wrap (the chunk size is at most
  \<open>2 ^ 64 - 16\<close>). Then for every list \<open>vs\<close> of values of \<open>e\<close> bytes each, pushing
  them in order and popping as many times runs without a fault and yields the values in
  reverse order of the pushes.
\<close>

theorem lifo_order:
  assumes "BLI_stack_new_ex e [] cs = Inr s0"
    and "chunk_size s0 \<noteq> 0" and "unat e dvd unat (chunk_size s0)"
    and "list_all (\<lambda>v. length v = unat e) vs"
    and "malloc_fits (chunk_size s0)"
  shows "\<exists>s'. lifo_run e cs vs = Inr (s', rev vs)"
proof -
  note new = new_ex_inv [OF assms(1-3)]
  from push_all_ok [OF new(1), of vs] assms(4) new(3)
  obtain s where p: "push_all s0 vs = Inr s" and inv: "stack_inv s"
    and el: "stack_elems s = rev vs @ stack_elems s0" by auto
  from el new(2) have el': "stack_elems s = rev vs" by simp
  then have "length vs \<le> length (stack_elems s)" by simp
  from pop_times_ok [OF inv this] el'
  obtain s' where "pop_times s (length vs) = Inr (s', rev vs)" by auto
  with p assms(1) show ?thesis by (simp add: lifo_run_def)
qed

text \<open>Three one-byte values on a stack with two elements to the chunk.\<close>

theorem lifo_order_witness:
  "\<exists>s'. lifo_run 1 2 [[Byte 1], [Byte 2], [Byte 3]] = Inr (s', [[Byte 3], [Byte 2], [Byte 1]])"
  using lifo_order [of 1 2 "\<lparr>elem_size = 1, chunk_size = 2, chunk_index = 0, element_count = 0,
      top_chunk = None, chunks_allocated = 0, chunks_freed = 0\<rparr>" "[[Byte 1], [Byte 2], [Byte 3]]"]
  by (simp add: BLI_stack_new_ex_def malloc_fits_iff)

text \<open>
  The claim as stated, for any chunk size, fails: with elements of 16 bytes and chunks
  of 8 bytes the first push copies 16 bytes into a chunk whose data has 8.
\<close>

theorem lifo_order_any_chunk_size_counterexample:
  "lifo_run 16 8 [replicate 16 (Byte 0)] = Inl Out_Of_Bounds"
  by code_simp

section \<open>Crossing chunk boundaries\<close>

text \<open>
  Claim C5, as amended. With two elements to the chunk (\<^verbatim>\<open>chunk_size = 2 * elem_size\<close>,
  the product not wrapping), pushing five values of \<^verbatim>\<open>elem_size\<close> bytes onto a new
  stack and popping five times runs without a fault and returns the values in reverse
  order. Three chunks are allocated and two are freed: a pop frees a chunk only when it
  is called with \<^verbatim>\<open>chunk_index == 0\<close>, so after the last pop the oldest chunk is still
  the top chunk of the empty stack. \<^verbatim>\<open>BLI_stack_clear\<close> then frees it: after the clear
  as many chunks are freed as were allocated.
\<close>

theorem chunk_boundary:
  assumes "e \<noteq> 0" and "unat e + unat e < 2 ^ 64"
    and "length vs = 5" and "list_all (\<lambda>v. length v = unat e) vs"
  shows "\<exists>s'. lifo_run e (2 * e) vs = Inr (s', rev vs)
           \<and> chunks_allocated s' = 3 \<and> chunks_freed s' = 2
           \<and> chain_length (top_chunk s') = 1
           \<and> chunks_freed (BLI_stack_clear s') = chunks_allocated (BLI_stack_clear s')"
proof -
  let ?E = "unat e"
  have E: "0 < ?E" using assms(1) by (simp add: unat_gt_0)
  have two: "unat (2 * e) = 2 * ?E"
    using assms(2) by (simp add: unat_word_ariths)
  then have ne: "2 * e \<noteq> 0" using E by (metis mult_is_0 unat_0 zero_neq_numeral less_numeral_extra(3))
  define s0 where "s0 = \<lparr>elem_size = e, chunk_size = 2 * e, chunk_index = 0, element_count = 0,
      top_chunk = None, chunks_allocated = 0, chunks_freed = 0\<rparr>"
  have new: "BLI_stack_new_ex e [] (2 * e) = Inr s0"
    using assms(1) ne by (simp add: BLI_stack_new_ex_def s0_def word_gt_0)
  have cs: "chunk_size s0 \<noteq> 0" "unat e dvd unat (chunk_size s0)"
    using ne two by (simp_all add: s0_def)
  note fresh = new_ex_inv [OF new cs]
  have per: "unat (chunk_size s0) div ?E = 2" using two E by (simp add: s0_def)
  from push_all_ok [OF fresh(1), of vs] assms(3,4) fresh
  obtain s where p: "push_all s0 vs = Inr s" and inv: "stack_inv s"
    and el: "stack_elems s = rev vs"
    and same: "elem_size s = e" "chunk_size s = chunk_size s0"
    and fr: "chunks_freed s = 0"
    and al: "chunks_allocated s = chain_length (top_chunk s)"
    and top: "top_chunk s \<noteq> None" "chunk_index s \<noteq> 0"
    by (auto simp add: chain_length_def)
  from top obtain c where c: "top_chunk s = Some c" by auto
  from inv same have "?E dvd unat (chunk_index s)" by (simp add: stack_inv_def)
  moreover from top(2) have "0 < unat (chunk_index s)" by (simp add: unat_gt_0)
  ultimately have "0 < unat (chunk_index s) div ?E" using E
    by (simp add: dvd_imp_le div_greater_zero_iff)
  moreover have "unat (chunk_index s) div ?E \<le> 2"
    using inv_sizes(3) [OF inv] same per by (metis div_le_mono)
  moreover have "5 = unat (chunk_index s) div ?E + chain_length (nxt c) * 2"
    using elems_count [OF inv c] el assms(3) same per by simp
  ultimately have "chain_length (nxt c) = 2" by arith
  then have three: "chain_length (top_chunk s) = 3" using c by (simp add: chain_length_Some)
  have "length vs \<le> length (stack_elems s)" using el by simp
  from pop_times_ok [OF inv this] el assms(3) same
  obtain s' where q: "pop_times s (length vs) = Inr (s', rev vs)" and inv': "stack_inv s'"
    and el': "stack_elems s' = []"
    and same': "elem_size s' = e" "chunk_size s' = chunk_size s0"
    and al': "chunks_allocated s' = chunks_allocated s"
    and fr': "chunks_freed s' + chain_length (top_chunk s') =
                 chunks_freed s + chain_length (top_chunk s)"
    and top': "top_chunk s' \<noteq> None"
    by auto
  from top' obtain c' where c': "top_chunk s' = Some c'" by auto
  have "0 = unat (chunk_index s') div ?E + chain_length (nxt c') * 2"
    using elems_count [OF inv' c'] el' same' per by simp
  then have one: "chain_length (top_chunk s') = 1" using c' by (simp add: chain_length_Some)
  have "lifo_run e (2 * e) vs = Inr (s', rev vs)"
    using new p q by (simp add: lifo_run_def)
  moreover have a3: "chunks_allocated s' = 3" using al' al three by simp
  moreover have f2: "chunks_freed s' = 2" using fr' fr three one by simp
  moreover have "chunks_freed (BLI_stack_clear s') = chunks_allocated (BLI_stack_clear s')"
    using clear_loop_fields [of s'] a3 f2 one by (simp add: BLI_stack_clear_def)
  ultimately show ?thesis using one by blast
qed

text \<open>Five one-byte values, chunks of two bytes.\<close>

theorem chunk_boundary_witness:
  "\<exists>s'. lifo_run 1 2 [[Byte 1], [Byte 2], [Byte 3], [Byte 4], [Byte 5]] =
          Inr (s', [[Byte 5], [Byte 4], [Byte 3], [Byte 2], [Byte 1]])
        \<and> chunks_allocated s' = 3 \<and> chunks_freed s' = 2 \<and> chain_length (top_chunk s') = 1
        \<and> chunks_freed (BLI_stack_clear s') = chunks_allocated (BLI_stack_clear s')"
  using chunk_boundary [of 1 "[[Byte 1], [Byte 2], [Byte 3], [Byte 4], [Byte 5]]"]
  by simp

text \<open>
  The claim as stated has as many chunks freed as allocated and no chunk left. On five
  one-byte values the final stack has three allocations, two frees and the first chunk
  as its top chunk.
\<close>

theorem chunk_boundary_frees_all_counterexample:
  "lifo_run 1 2 [[Byte 1], [Byte 2], [Byte 3], [Byte 4], [Byte 5]] =
     Inr (\<lparr>elem_size = 1, chunk_size = 2, chunk_index = 0, element_count = 0,
           top_chunk = Some (StackChunk None [Byte 1, Byte 2]),
           chunks_allocated = 3, chunks_freed = 2\<rparr>,
          [[Byte 5], [Byte 4], [Byte 3], [Byte 2], [Byte 1]])"
  by code_simp

section \<open>The offset in the top chunk\<close>

text \<open>
  Claim C4, as amended. A stack is created and the chunk size the constructor settles on
  is a positive multiple of the element size. Then in every state that a sequence of
  calls of push, push_r, pop, discard, pop_n, pop_n_reverse and clear reaches without a
  fault, \<^verbatim>\<open>chunk_index\<close> is a multiple of \<^verbatim>\<open>elem_size\<close> and at most
  \<^verbatim>\<open>chunk_size\<close>; the two sizes are those of the construction.
\<close>

theorem chunk_index_invariant:
  assumes "BLI_stack_new_ex e descr cs = Inr s0"
    and "chunk_size s0 \<noteq> 0" and "unat e dvd unat (chunk_size s0)"
    and "run s0 xs = Inr s"
  shows "unat (elem_size s) dvd unat (chunk_index s) \<and> chunk_index s \<le> chunk_size s
         \<and> elem_size s = e \<and> chunk_size s = chunk_size s0"
proof -
  note new = new_ex_inv [OF assms(1-3)]
  from run_inv [OF new(1) assms(4)] new(3) show ?thesis by (auto simp add: stack_inv_def)
qed

text \<open>
  Elements of two bytes, chunks of four: three pushes, a discard and a pop cross a chunk
  boundary both ways and end with the offset 2.
\<close>

theorem chunk_index_invariant_witness:
  "\<exists>s. run \<lparr>elem_size = 2, chunk_size = 4, chunk_index = 0, element_count = 0,
             top_chunk = None, chunks_allocated = 0, chunks_freed = 0\<rparr>
           [Push (Some [Byte 1, Byte 2]), Push_r, Push (Some [Byte 5, Byte 6]), Discard,
            Pop [Uninit, Uninit] (Some 0)] = Inr s
       \<and> unat (elem_size s) dvd unat (chunk_index s) \<and> chunk_index s \<le> chunk_size s
       \<and> chunk_index s = 2 \<and> chunk_size s = 4"
proof -
  have new: "BLI_stack_new_ex 2 [] 4 = Inr \<lparr>elem_size = 2, chunk_size = 4, chunk_index = 0,
      element_count = 0, top_chunk = None, chunks_allocated = 0, chunks_freed = 0\<rparr>"
    by (simp add: BLI_stack_new_ex_def)
  have r: "run \<lparr>elem_size = 2, chunk_size = 4, chunk_index = 0, element_count = 0,
             top_chunk = None, chunks_allocated = 0, chunks_freed = 0\<rparr>
           [Push (Some [Byte 1, Byte 2]), Push_r, Push (Some [Byte 5, Byte 6]), Discard,
            Pop [Uninit, Uninit] (Some 0)] =
      Inr \<lparr>elem_size = 2, chunk_size = 4, chunk_index = 2, element_count = 1,
           top_chunk = Some (StackChunk None [Byte 1, Byte 2, Uninit, Uninit]),
           chunks_allocated = 2, chunks_freed = 1\<rparr>"
    by code_simp
  have h2: "chunk_size \<lparr>elem_size = 2, chunk_size = 4, chunk_index = 0,
      element_count = 0, top_chunk = None, chunks_allocated = 0, chunks_freed = 0\<rparr> \<noteq> (0 :: 64 word)"
    by simp
  have h3: "unat (2 :: 64 word) dvd unat (chunk_size \<lparr>elem_size = 2, chunk_size = 4, chunk_index = 0,
      element_count = 0, top_chunk = None, chunks_allocated = 0, chunks_freed = 0\<rparr>)"
    by simp
  from chunk_index_invariant [OF new h2 h3 r] r show ?thesis by simp
qed

text \<open>
  The claim as stated, for every positive chunk size, fails: with elements of two bytes
  and the positive chunk size 1, one call of push_r leaves \<^verbatim>\<open>chunk_index = 2\<close>, above
  the chunk size.
\<close>

theorem chunk_index_any_chunk_size_counterexample:
  "BLI_stack_new_ex 2 [] 1 =
     Inr \<lparr>elem_size = 2, chunk_size = 1, chunk_index = 0, element_count = 0,
          top_chunk = None, chunks_allocated = 0, chunks_freed = 0\<rparr>
   \<and> run \<lparr>elem_size = 2, chunk_size = 1, chunk_index = 0, element_count = 0,
           top_chunk = None, chunks_allocated = 0, chunks_freed = 0\<rparr> [Push_r] =
     Inr \<lparr>elem_size = 2, chunk_size = 1, chunk_index = 2, element_count = 1,
          top_chunk = Some (StackChunk None [Uninit]),
          chunks_allocated = 1, chunks_freed = 0\<rparr>
   \<and> \<not> chunk_index \<lparr>elem_size = 2, chunk_size = 1, chunk_index = 2, element_count = 1,
          top_chunk = Some (StackChunk None [Uninit]),
          chunks_allocated = 1, chunks_freed = 0\<rparr> \<le> (1 :: 64 word)"
  by code_simp

section \<open>Push, then pop\<close>

text \<open>
  On a well-formed stack a push followed at once by a pop returns the pushed bytes and
  restores the elements and the count.
\<close>

lemma round_trip_inv:
  assumes "stack_inv s" and "length x = unat (elem_size s)"
    and "d + unat (elem_size s) \<le> length mem"
  shows "\<exists>s'. push_pop s x mem d =
                 Inr (s', take d mem @ x @ drop (d + unat (elem_size s)) mem)
           \<and> element_count s' = element_count s
           \<and> stack_elems s' = stack_elems s"
proof -
  from push_ok [OF assms(1), of x] assms(2)
  obtain s1 where p: "BLI_stack_push s (Some x) = Inr s1" and post: "push_post s x s1"
    by auto
  from post assms(2) have inv1: "stack_inv s1" and el1: "stack_elems s1 = x # stack_elems s"
    and e1: "elem_size s1 = elem_size s" and n1: "element_count s1 = element_count s + 1"
    by (simp_all add: push_post_def)
  from el1 have ne: "stack_elems s1 \<noteq> []" by simp
  from pop_ok [OF inv1 ne]
  obtain s' where res: "pop_result s1 s'" and post': "pop_post s1 s'" by auto
  from res assms(3) e1 el1
  have "BLI_stack_pop s1 mem (Some d) =
          Inr (s', take d mem @ x @ drop (d + unat (elem_size s)) mem)"
    by (simp add: pop_result_def)
  with p have "push_pop s x mem d =
                 Inr (s', take d mem @ x @ drop (d + unat (elem_size s)) mem)"
    by (simp add: push_pop_def)
  moreover from post' n1 el1 have "element_count s' = element_count s"
    and "stack_elems s' = stack_elems s"
    by (simp_all add: pop_post_def)
  ultimately show ?thesis by blast
qed

text \<open>
  Claim C6, as amended. A stack is created, the chunk size the constructor settles on is
  a positive multiple of the element size, and the allocation request for a chunk of that
  size does not wrap (the chunk size is at most \<open>2 ^ 64 - 16\<close>). In every state \<open>s\<close>
  that a sequence of
  calls reaches without a fault, pushing a value \<open>x\<close> of \<^verbatim>\<open>elem_size\<close> bytes and
  popping at once into a destination with room for it runs without a fault, writes
  exactly the bytes of \<open>x\<close> at the destination and nothing else, and leaves the
  element count and the elements of the stack as they were before the push.
\<close>

theorem round_trip:
  assumes "BLI_stack_new_ex e descr cs = Inr s0"
    and "chunk_size s0 \<noteq> 0" and "unat e dvd unat (chunk_size s0)"
    and "run s0 xs = Inr s"
    and "length x = unat e" and "d + unat e \<le> length mem"
    and "malloc_fits (chunk_size s0)"
  shows "\<exists>s'. push_pop s x mem d = Inr (s', take d mem @ x @ drop (d + unat e) mem)
           \<and> element_count s' = element_count s
           \<and> stack_elems s' = stack_elems s"
proof -
  note new = new_ex_inv [OF assms(1-3)]
  from run_inv [OF new(1) assms(4)] new(3)
  have inv: "stack_inv s" and e: "elem_size s = e" by simp_all
  from round_trip_inv [OF inv, of x d mem] assms(5,6) e show ?thesis by simp
qed

text \<open>
  A two-byte value through a stack that holds one element, into a three-byte buffer at
  offset 1.
\<close>

theorem round_trip_witness:
  "\<exists>s'. push_pop \<lparr>elem_size = 2, chunk_size = 4, chunk_index = 2, element_count = 1,
            top_chunk = Some (StackChunk None [Byte 1, Byte 2, Uninit, Uninit]),
            chunks_allocated = 1, chunks_freed = 0\<rparr>
          [Byte 7, Byte 9] [Uninit, Uninit, Uninit] 1 = Inr (s', [Uninit, Byte 7, Byte 9])
        \<and> element_count s' = 1
        \<and> stack_elems s' = [[Byte 1, Byte 2]]"
proof -
  have new: "BLI_stack_new_ex 2 [] 4 = Inr \<lparr>elem_size = 2, chunk_size = 4, chunk_index = 0,
      element_count = 0, top_chunk = None, chunks_allocated = 0, chunks_freed = 0\<rparr>"
    by (simp add: BLI_stack_new_ex_def)
  have r: "run \<lparr>elem_size = 2, chunk_size = 4, chunk_index = 0,
      element_count = 0, top_chunk = None, chunks_allocated = 0, chunks_freed = 0\<rparr>
      [Push (Some [Byte 1, Byte 2])] =
    Inr \<lparr>elem_size = 2, chunk_size = 4, chunk_index = 2, element_count = 1,
            top_chunk = Some (StackChunk None [Byte 1, Byte 2, Uninit, Uninit]),
            chunks_allocated = 1, chunks_freed = 0\<rparr>"
    by code_simp
  have el: "stack_elems \<lparr>elem_size = 2, chunk_size = 4, chunk_index = 2, element_count = 1,
            top_chunk = Some (StackChunk None [Byte 1, Byte 2, Uninit, Uninit]),
            chunks_allocated = 1, chunks_freed = 0\<rparr> = [[Byte 1, Byte 2]]"
    by code_simp
  from round_trip [OF new _ _ r, of "[Byte 7, Byte 9]" 1 "[Uninit, Uninit, Uninit]"] el
  show ?thesis by (simp add: malloc_fits_iff)
qed

text \<open>
  The claim as stated, for every chunk size, fails on the new stack with elements of 16
  bytes and chunks of 8: the push copies past the end of the chunk.
\<close>

theorem round_trip_any_chunk_size_counterexample:
  "BLI_stack_new_ex 16 [] 8 =
     Inr \<lparr>elem_size = 16, chunk_size = 8, chunk_index = 0, element_count = 0,
          top_chunk = None, chunks_allocated = 0, chunks_freed = 0\<rparr>
   \<and> push_pop \<lparr>elem_size = 16, chunk_size = 8, chunk_index = 0, element_count = 0,
          top_chunk = None, chunks_allocated = 0, chunks_freed = 0\<rparr>
        (replicate 16 (Byte 1)) (replicate 16 Uninit) 0 = Inl Out_Of_Bounds"
  by code_simp

section \<open>The element count\<close>

text \<open>
  Claim C7. A run of pushes (push or push_r), pops and discards starts from a new stack,
  every pop and discard coming when more elements were pushed than popped. Then there
  are at most as many pops as pushes, and whenever the run returns, \<^verbatim>\<open>BLI_stack_count\<close>
  is the number of pushes minus the number of pops and discards, and
  \<^verbatim>\<open>BLI_stack_is_empty\<close> is true exactly when the count is 0. The run does return
  when the chunk size is a positive multiple of the element size, the allocation request
  for a chunk does not wrap (the chunk size is at most \<open>2 ^ 64 - 16\<close>), every pushed source has
  \<^verbatim>\<open>elem_size\<close> bytes and every non-null destination has room for them. The count is a
  \<^verbatim>\<open>size_t\<close>: it is the difference as a 64-bit word, and the difference itself
  whenever that is below \<open>2 ^ 64\<close>, as the address space makes it.
\<close>

theorem count_consistency:
  assumes "BLI_stack_new_ex e descr cs = Inr s0"
    and "pops_on_nonempty 0 xs"
  shows "pops xs \<le> pushes xs
    \<and> (\<forall>s. run s0 xs = Inr s \<longrightarrow>
           BLI_stack_count s = of_nat (pushes xs - pops xs)
           \<and> (pushes xs - pops xs < 2 ^ 64 \<longrightarrow>
                 unat (BLI_stack_count s) = pushes xs - pops xs)
           \<and> BLI_stack_is_empty s = (BLI_stack_count s = 0))
    \<and> (chunk_size s0 \<noteq> 0 \<and> unat e dvd unat (chunk_size s0) \<and> malloc_fits (chunk_size s0)
         \<and> list_all (arg_ok (unat e)) xs
         \<longrightarrow> (\<exists>s. run s0 xs = Inr s))"
proof (intro conjI allI impI)
  from pops_bounded [OF assms(2)] show le: "pops xs \<le> pushes xs" by simp
  from assms(1) have c0: "element_count s0 = 0"
    by (auto simp add: BLI_stack_new_ex_def split: if_splits)
  show cnt: "BLI_stack_count s = of_nat (pushes xs - pops xs)" if "run s0 xs = Inr s" for s
  proof -
    from run_count [OF that assms(2)] c0
    have "element_count s = of_nat (pushes xs) - of_nat (pops xs)" by simp
    also have "\<dots> = of_nat (pushes xs - pops xs)" using le by simp
    finally show ?thesis by (simp add: BLI_stack_count_def)
  qed
  show "unat (BLI_stack_count s) = pushes xs - pops xs"
    if "run s0 xs = Inr s" and "pushes xs - pops xs < 2 ^ 64" for s
    using cnt [OF that(1)] that(2) by (simp add: unat_of_nat)
  show "BLI_stack_is_empty s = (BLI_stack_count s = 0)" for s
    by (simp add: BLI_stack_is_empty_def BLI_stack_count_def)
  show "\<exists>s. run s0 xs = Inr s"
    if "chunk_size s0 \<noteq> 0 \<and> unat e dvd unat (chunk_size s0) \<and> malloc_fits (chunk_size s0)
        \<and> list_all (arg_ok (unat e)) xs"
  proof -
    from that have a: "chunk_size s0 \<noteq> 0" "unat e dvd unat (chunk_size s0)"
      and b: "list_all (arg_ok (unat e)) xs" by simp_all
    note new = new_ex_inv [OF assms(1) a]
    from run_total [OF new(1)] assms(2) b new(2,3) show ?thesis by simp
  qed
qed

text \<open>Three pushes, one pop and one discard in between: the count is 1.\<close>

theorem count_consistency_witness:
  "\<exists>s. run \<lparr>elem_size = 1, chunk_size = 2, chunk_index = 0, element_count = 0,
              top_chunk = None, chunks_allocated = 0, chunks_freed = 0\<rparr>
            [Push (Some [Byte 1]), Push_r, Pop [Uninit] (Some 0), Discard, Push (Some [Byte 2])]
          = Inr s
        \<and> unat (BLI_stack_count s) = 1 \<and> \<not> BLI_stack_is_empty s"
proof -
  let ?s0 = "\<lparr>elem_size = 1, chunk_size = 2, chunk_index = 0, element_count = 0,
              top_chunk = None, chunks_allocated = 0, chunks_freed = 0\<rparr>"
  let ?xs = "[Push (Some [Byte 1]), Push_r, Pop [Uninit] (Some 0), Discard, Push (Some [Byte 2])]"
  have new: "BLI_stack_new_ex 1 [] 2 = Inr ?s0" by (simp add: BLI_stack_new_ex_def)
  have a: "pops_on_nonempty 0 ?xs" by simp
  have k: "pushes ?xs - pops ?xs = 1" by (simp add: pushes_def pops_def)
  note t = count_consistency [OF new a]
  from t have "\<exists>s. run ?s0 ?xs = Inr s" by (simp add: malloc_fits_iff)
  then obtain s where r: "run ?s0 ?xs = Inr s" ..
  with t have "pushes ?xs - pops ?xs < 2 ^ 64 \<longrightarrow>
                 unat (BLI_stack_count s) = pushes ?xs - pops ?xs"
    and e: "BLI_stack_is_empty s = (BLI_stack_count s = 0)" by blast+
  with k have "unat (BLI_stack_count s) = 1" by simp
  with e have "unat (BLI_stack_count s) = 1 \<and> \<not> BLI_stack_is_empty s" by auto
  with r show ?thesis by blast
qed

section \<open>Popping several elements\<close>

text \<open>
  Both loops on a well-formed stack that holds at least \<open>n\<close> elements.
\<close>

lemma pop_n_order_inv:
  assumes "stack_inv s" and "unat n \<le> length (stack_elems s)"
    and "d + unat n * unat (elem_size s) \<le> length mem" and "length mem < 2 ^ 64"
  shows "\<exists>s1 s2.
           BLI_stack_pop_n s mem (Some d) n =
             Inr (s1, take d mem @ concat (take (unat n) (stack_elems s))
                      @ drop (d + unat n * unat (elem_size s)) mem)
         \<and> BLI_stack_pop_n_reverse s mem (Some d) n =
             Inr (s2, take d mem @ concat (rev (take (unat n) (stack_elems s)))
                      @ drop (d + unat n * unat (elem_size s)) mem)
         \<and> stack_elems s1 = drop (unat n) (stack_elems s)
         \<and> stack_elems s2 = drop (unat n) (stack_elems s)
         \<and> element_count s1 = element_count s - of_nat (unat n)
         \<and> element_count s2 = element_count s - of_nat (unat n)"
proof -
  from pop_n_loop_ok [OF assms(1), of 0 "unat n" d mem] assms(2-4)
  obtain s1 where "pop_n_loop s mem d 0 (unat n) =
      Inr (s1, take d mem @ concat (take (unat n) (stack_elems s))
               @ drop (d + unat n * unat (elem_size s)) mem)"
    and "stack_elems s1 = drop (unat n) (stack_elems s)"
    and "element_count s1 = element_count s - of_nat (unat n)"
    by auto
  moreover from pop_n_reverse_loop_ok [OF assms]
  obtain s2 where "pop_n_reverse_loop s mem d (unat n) =
      Inr (s2, take d mem @ concat (rev (take (unat n) (stack_elems s)))
               @ drop (d + unat n * unat (elem_size s)) mem)"
    and "stack_elems s2 = drop (unat n) (stack_elems s)"
    and "element_count s2 = element_count s - of_nat (unat n)"
    by auto
  ultimately show ?thesis
    by (simp add: BLI_stack_pop_n_def BLI_stack_pop_n_reverse_def)
qed

text \<open>
  Claim C8. A stack is created with a chunk size that is a positive multiple of the
  element size and for which the allocation request of a chunk does not wrap (at most
  \<open>2 ^ 64 - 16\<close>), a sequence of calls has reached the state \<open>s\<close> without a fault, \<open>s\<close>
  holds at least \<open>n\<close> elements and the destination has room for \<open>n\<close> elements. Then
  \<^verbatim>\<open>BLI_stack_pop_n\<close> writes the \<open>n\<close> topmost elements in pop order, the topmost first,
  and \<^verbatim>\<open>BLI_stack_pop_n_reverse\<close> writes the same elements in the order of their pushes,
  the oldest first; the rest of the buffer is untouched. Both leave the stack with these
  \<open>n\<close> elements removed and the count lowered by \<open>n\<close>. (\<open>stack_elems\<close> lists the
  elements top first.)
\<close>

theorem pop_n_order:
  assumes "BLI_stack_new_ex e descr cs = Inr s0"
    and "chunk_size s0 \<noteq> 0" and "unat e dvd unat (chunk_size s0)"
    and "run s0 xs = Inr s"
    and "unat n \<le> length (stack_elems s)"
    and "d + unat n * unat e \<le> length mem" and "length mem < 2 ^ 64"
    and "malloc_fits (chunk_size s0)"
  shows "\<exists>s1 s2.
           BLI_stack_pop_n s mem (Some d) n =
             Inr (s1, take d mem @ concat (take (unat n) (stack_elems s))
                      @ drop (d + unat n * unat e) mem)
         \<and> BLI_stack_pop_n_reverse s mem (Some d) n =
             Inr (s2, take d mem @ concat (rev (take (unat n) (stack_elems s)))
                      @ drop (d + unat n * unat e) mem)
         \<and> stack_elems s1 = drop (unat n) (stack_elems s)
         \<and> stack_elems s2 = drop (unat n) (stack_elems s)
         \<and> element_count s1 = element_count s - of_nat (unat n)
         \<and> element_count s2 = element_count s - of_nat (unat n)"
proof -
  note new = new_ex_inv [OF assms(1-3)]
  from run_inv [OF new(1) assms(4)] new(3)
  have inv: "stack_inv s" and e: "elem_size s = e" by simp_all
  from pop_n_order_inv [OF inv assms(5), of d mem] assms(6,7) e show ?thesis by simp
qed

text \<open>
  After the pushes of A, B, C (the bytes 65, 66, 67): \<^verbatim>\<open>pop_n(3)\<close> gives C, B, A and
  \<^verbatim>\<open>pop_n_reverse(3)\<close> on the same stack gives A, B, C.
\<close>

theorem pop_n_order_witness:
  "\<exists>s s1 s2.
      run \<lparr>elem_size = 1, chunk_size = 2, chunk_index = 0, element_count = 0,
           top_chunk = None, chunks_allocated = 0, chunks_freed = 0\<rparr>
        [Push (Some [Byte 65]), Push (Some [Byte 66]), Push (Some [Byte 67])] = Inr s
    \<and> BLI_stack_pop_n s [Uninit, Uninit, Uninit] (Some 0) 3 = Inr (s1, [Byte 67, Byte 66, Byte 65])
    \<and> BLI_stack_pop_n_reverse s [Uninit, Uninit, Uninit] (Some 0) 3 =
        Inr (s2, [Byte 65, Byte 66, Byte 67])
    \<and> stack_elems s1 = [] \<and> stack_elems s2 = []
    \<and> element_count s1 = 0 \<and> element_count s2 = 0"
proof -
  let ?s = "\<lparr>elem_size = 1, chunk_size = 2, chunk_index = 1, element_count = 3,
      top_chunk = Some (StackChunk (Some (StackChunk None [Byte 65, Byte 66])) [Byte 67, Uninit]),
      chunks_allocated = 2, chunks_freed = 0\<rparr>"
  have new: "BLI_stack_new_ex 1 [] 2 = Inr \<lparr>elem_size = 1, chunk_size = 2, chunk_index = 0,
      element_count = 0, top_chunk = None, chunks_allocated = 0, chunks_freed = 0\<rparr>"
    by (simp add: BLI_stack_new_ex_def)
  have r: "run \<lparr>elem_size = 1, chunk_size = 2, chunk_index = 0, element_count = 0,
                top_chunk = None, chunks_allocated = 0, chunks_freed = 0\<rparr>
        [Push (Some [Byte 65]), Push (Some [Byte 66]), Push (Some [Byte 67])] = Inr ?s"
    by code_simp
  have el: "stack_elems ?s = [[Byte 67], [Byte 66], [Byte 65]]" by code_simp
  from pop_n_order [OF new _ _ r, of 3 0 "[Uninit, Uninit, Uninit]"] el
  have "\<exists>s1 s2.
      BLI_stack_pop_n ?s [Uninit, Uninit, Uninit] (Some 0) 3 = Inr (s1, [Byte 67, Byte 66, Byte 65])
    \<and> BLI_stack_pop_n_reverse ?s [Uninit, Uninit, Uninit] (Some 0) 3 =
        Inr (s2, [Byte 65, Byte 66, Byte 67])
    \<and> stack_elems s1 = [] \<and> stack_elems s2 = []
    \<and> element_count s1 = 0 \<and> element_count s2 = 0" by (simp add: malloc_fits_iff)
  with r show ?thesis by blast
qed

section \<open>Peek\<close>

text \<open>
  Where \<^verbatim>\<open>chunk_index\<close> is not 0, the pointer of \<^verbatim>\<open>BLI_stack_peek\<close> is the address of
  the top element.
\<close>

lemma peek_top:
  assumes inv: "stack_inv s" and top: "top_chunk s \<noteq> None" and idx: "chunk_index s \<noteq> 0"
  shows "read_peek s = Inr (hd (stack_elems s))"
proof -
  let ?E = "unat (elem_size s)" and ?I = "unat (chunk_index s)"
  note sz = inv_sizes [OF inv]
  from top obtain c where c: "top_chunk s = Some c" by auto
  from inv have dI: "?E dvd ?I" by (simp add: stack_inv_def)
  from idx have "0 < ?I" by (simp add: unat_gt_0)
  with dI have ge: "?E \<le> ?I" by (simp add: dvd_imp_le)
  then have "elem_size s \<le> chunk_index s" by (simp add: word_le_nat_alt)
  then have us: "unat (chunk_index s - elem_size s) = ?I - ?E" by (rule unat_sub)
  from dI ge obtain k where k: "?I = k * ?E + ?E"
    by (metis dvd_div_mult_self le_add_diff_inverse2 dvd_diff_nat dvd_refl)
  then have k': "?I - ?E = k * ?E" by simp
  from inv c have lc: "length (data c) = unat (chunk_size s)"
    by (simp add: stack_inv_def chain_Some)
  have "chunk_elems ?E ?I (data c) =
      take ?E (drop (?I - ?E) (data c)) # chunk_elems ?E (?I - ?E) (data c)"
    unfolding k' unfolding k using sz(1) by (rule chunk_elems_last)
  then have hd: "hd (stack_elems s) = take ?E (drop (?I - ?E) (data c))"
    using c by (simp add: stack_elems_def)
  have "?I - ?E + ?E \<le> length (data c)" using ge sz(3) lc by simp
  then show ?thesis using c us hd
    by (simp add: read_peek_def BLI_stack_peek_def memcpy_def Let_def)
qed

text \<open>
  Claim C2 fails on the code. Three one-byte pushes with two bytes to the chunk and one
  pop leave a stack of two elements whose top chunk is spent (\<^verbatim>\<open>chunk_index = 0\<close>) and
  still resident. The top element is the byte 2, in the older chunk. \<^verbatim>\<open>BLI_stack_peek\<close>
  passes its assertion and returns the offset \<^verbatim>\<open>0 - 1\<close>, which wraps to
  \<open>2 ^ 64 - 1\<close>, into the spent chunk: a read through the pointer is out of bounds.
\<close>

theorem peek_on_spent_top_chunk:
  "run \<lparr>elem_size = 1, chunk_size = 2, chunk_index = 0, element_count = 0,
        top_chunk = None, chunks_allocated = 0, chunks_freed = 0\<rparr>
     [Push (Some [Byte 1]), Push (Some [Byte 2]), Push (Some [Byte 3]), Pop [Uninit] (Some 0)] =
   Inr \<lparr>elem_size = 1, chunk_size = 2, chunk_index = 0, element_count = 2,
        top_chunk = Some (StackChunk (Some (StackChunk None [Byte 1, Byte 2])) [Byte 3, Uninit]),
        chunks_allocated = 2, chunks_freed = 0\<rparr>
   \<and> stack_elems \<lparr>elem_size = 1, chunk_size = 2, chunk_index = 0, element_count = 2,
        top_chunk = Some (StackChunk (Some (StackChunk None [Byte 1, Byte 2])) [Byte 3, Uninit]),
        chunks_allocated = 2, chunks_freed = 0\<rparr> = [[Byte 2], [Byte 1]]
   \<and> BLI_stack_peek \<lparr>elem_size = 1, chunk_size = 2, chunk_index = 0, element_count = 2,
        top_chunk = Some (StackChunk (Some (StackChunk None [Byte 1, Byte 2])) [Byte 3, Uninit]),
        chunks_allocated = 2, chunks_freed = 0\<rparr> = Inr 18446744073709551615
   \<and> read_peek \<lparr>elem_size = 1, chunk_size = 2, chunk_index = 0, element_count = 2,
        top_chunk = Some (StackChunk (Some (StackChunk None [Byte 1, Byte 2])) [Byte 3, Uninit]),
        chunks_allocated = 2, chunks_freed = 0\<rparr> = Inl Out_Of_Bounds"
proof (intro conjI)
  show "run \<lparr>elem_size = 1, chunk_size = 2, chunk_index = 0, element_count = 0,
        top_chunk = None, chunks_allocated = 0, chunks_freed = 0\<rparr>
     [Push (Some [Byte 1]), Push (Some [Byte 2]), Push (Some [Byte 3]), Pop [Uninit] (Some 0)] =
   Inr \<lparr>elem_size = 1, chunk_size = 2, chunk_index = 0, element_count = 2,
        top_chunk = Some (StackChunk (Some (StackChunk None [Byte 1, Byte 2])) [Byte 3, Uninit]),
        chunks_allocated = 2, chunks_freed = 0\<rparr>"
    by code_simp
  show "stack_elems \<lparr>elem_size = 1, chunk_size = 2, chunk_index = 0, element_count = 2,
        top_chunk = Some (StackChunk (Some (StackChunk None [Byte 1, Byte 2])) [Byte 3, Uninit]),
        chunks_allocated = 2, chunks_freed = 0\<rparr> = [[Byte 2], [Byte 1]]"
    by code_simp
  show "BLI_stack_peek \<lparr>elem_size = 1, chunk_size = 2, chunk_index = 0, element_count = 2,
        top_chunk = Some (StackChunk (Some (StackChunk None [Byte 1, Byte 2])) [Byte 3, Uninit]),
        chunks_allocated = 2, chunks_freed = 0\<rparr> = Inr 18446744073709551615"
    by (simp add: BLI_stack_peek_def)
  show "read_peek \<lparr>elem_size = 1, chunk_size = 2, chunk_index = 0, element_count = 2,
        top_chunk = Some (StackChunk (Some (StackChunk None [Byte 1, Byte 2])) [Byte 3, Uninit]),
        chunks_allocated = 2, chunks_freed = 0\<rparr> = Inl Out_Of_Bounds"
    by (simp add: read_peek_def BLI_stack_peek_def memcpy_def
          unsigned_minus_1_eq_mask mask_eq_exp_minus_1)
qed

section \<open>Pop, discard and peek on an empty stack\<close>

text \<open>
  Claim C3 fails on the code. One push and one pop leave an empty stack whose chunk is
  still resident. On it \<^verbatim>\<open>assert(old_chunk)\<close> holds: discard returns, having freed the
  chunk, with \<^verbatim>\<open>element_count\<close> wrapped to \<open>2 ^ 64 - 1\<close>; pop with a destination
  goes on to read through the null \<^verbatim>\<open>top_chunk\<close>; peek passes
  \<^verbatim>\<open>assert(stack->top_chunk)\<close> and returns a pointer before the chunk's data. Only on
  the stack that has no chunk (the new one) does the assertion fail.
\<close>

theorem pop_on_emptied_stack:
  "run \<lparr>elem_size = 1, chunk_size = 2, chunk_index = 0, element_count = 0,
        top_chunk = None, chunks_allocated = 0, chunks_freed = 0\<rparr>
     [Push (Some [Byte 1]), Pop [Uninit] (Some 0)] =
   Inr \<lparr>elem_size = 1, chunk_size = 2, chunk_index = 0, element_count = 0,
        top_chunk = Some (StackChunk None [Byte 1, Uninit]),
        chunks_allocated = 1, chunks_freed = 0\<rparr>
   \<and> BLI_stack_is_empty \<lparr>elem_size = 1, chunk_size = 2, chunk_index = 0, element_count = 0,
        top_chunk = Some (StackChunk None [Byte 1, Uninit]),
        chunks_allocated = 1, chunks_freed = 0\<rparr>
   \<and> BLI_stack_discard \<lparr>elem_size = 1, chunk_size = 2, chunk_index = 0, element_count = 0,
        top_chunk = Some (StackChunk None [Byte 1, Uninit]),
        chunks_allocated = 1, chunks_freed = 0\<rparr> =
     Inr \<lparr>elem_size = 1, chunk_size = 2, chunk_index = 1, element_count = 18446744073709551615,
          top_chunk = None, chunks_allocated = 1, chunks_freed = 1\<rparr>
   \<and> BLI_stack_pop \<lparr>elem_size = 1, chunk_size = 2, chunk_index = 0, element_count = 0,
        top_chunk = Some (StackChunk None [Byte 1, Uninit]),
        chunks_allocated = 1, chunks_freed = 0\<rparr> [Uninit] (Some 0) = Inl Null_Deref
   \<and> BLI_stack_peek \<lparr>elem_size = 1, chunk_size = 2, chunk_index = 0, element_count = 0,
        top_chunk = Some (StackChunk None [Byte 1, Uninit]),
        chunks_allocated = 1, chunks_freed = 0\<rparr> = Inr 18446744073709551615
   \<and> BLI_stack_discard \<lparr>elem_size = 1, chunk_size = 2, chunk_index = 0, element_count = 0,
        top_chunk = None, chunks_allocated = 0, chunks_freed = 0\<rparr> = Inl Assert_Failed"
proof (intro conjI)
  show "run \<lparr>elem_size = 1, chunk_size = 2, chunk_index = 0, element_count = 0,
        top_chunk = None, chunks_allocated = 0, chunks_freed = 0\<rparr>
     [Push (Some [Byte 1]), Pop [Uninit] (Some 0)] =
   Inr \<lparr>elem_size = 1, chunk_size = 2, chunk_index = 0, element_count = 0,
        top_chunk = Some (StackChunk None [Byte 1, Uninit]),
        chunks_allocated = 1, chunks_freed = 0\<rparr>"
    by code_simp
qed (simp_all add: BLI_stack_is_empty_def BLI_stack_discard_def BLI_stack_pop_def
      BLI_stack_peek_def)

end
